theory Spec2Isabelle
  imports Main "HOL-Library.Word"
begin

unbundle bit_operations_syntax

section \<open>The TWI peripheral as seen by the driver\<close>

text \<open>
  The driver (src/src/i2.c) talks to four memory-mapped, volatile 8-bit registers of the
  AVR two-wire interface. Every access is an interaction with the hardware: a store may
  start a bus phase, and a load returns whatever the hardware presents at that moment.
  The registers are therefore not modelled as memory cells but as a device with a state of
  its own (type \<open>'h\<close>), reached only through loads and stores. The driver's side of the
  conversation is recorded in a trace, so that "writes", "polls" and "checks" are facts
  about a run.
\<close>

type_synonym byte = "8 word"
type_synonym cint = "16 word" \<comment> \<open>\<open>int\<close> of avr-gcc: 16 bits\<close>
type_synonym ulong = "32 word" \<comment> \<open>\<open>unsigned long\<close> of avr-gcc: 32 bits\<close>

datatype reg = TWBR | TWSR | TWDR | TWCR

datatype event =
    Write reg byte \<comment> \<open>a store to a register\<close>
  | Read reg byte \<comment> \<open>a load from a register and the value it returned\<close>
  | Check byte bool \<comment> \<open>\<open>i2cCheckStatus\<close> compared the status with this code, with this outcome\<close>

text \<open>
  What the build and the hardware supply and src/ does not contain: the behaviour of the
  device, whether plain \<open>char\<close> is signed (implementation-defined in C), the macro
  \<open>F_CPU\<close>, and the status codes of \<open><util/twi.h>\<close> (C \<open>int\<close> constants).
\<close>

record 'h platform =
  dev_read :: "reg \<Rightarrow> 'h \<Rightarrow> byte \<times> 'h"
  dev_write :: "reg \<Rightarrow> byte \<Rightarrow> 'h \<Rightarrow> 'h"
  char_signed :: bool
  F_CPU :: ulong
  TW_START :: cint
  TW_MT_SLA_ACK :: cint
  TW_MT_DATA_ACK :: cint
  TW_MR_SLA_ACK :: cint

record 'h machine =
  hw :: 'h
  trace :: "event list"

definition write_reg :: "'h platform \<Rightarrow> reg \<Rightarrow> byte \<Rightarrow> 'h machine \<Rightarrow> 'h machine" where
  "write_reg p r v m = m\<lparr>hw := dev_write p r v (hw m), trace := trace m @ [Write r v]\<rparr>"

definition read_reg :: "'h platform \<Rightarrow> reg \<Rightarrow> 'h machine \<Rightarrow> byte \<times> 'h machine" where
  "read_reg p r m =
     (fst (dev_read p r (hw m)),
      m\<lparr>hw := snd (dev_read p r (hw m)),
        trace := trace m @ [Read r (fst (dev_read p r (hw m)))]\<rparr>)"

text \<open>The stores of a trace, in order.\<close>

fun writes_of :: "event list \<Rightarrow> (reg \<times> byte) list" where
  "writes_of [] = []"
| "writes_of (Write r v # es) = (r, v) # writes_of es"
| "writes_of (Read r v # es) = writes_of es"
| "writes_of (Check c b # es) = writes_of es"

text \<open>The status comparisons of a trace, in order.\<close>

fun checks_of :: "event list \<Rightarrow> (byte \<times> bool) list" where
  "checks_of [] = []"
| "checks_of (Check c b # es) = (c, b) # checks_of es"
| "checks_of (Write r v # es) = checks_of es"
| "checks_of (Read r v # es) = checks_of es"

text \<open>The loads of a trace, in order.\<close>

fun reads_of :: "event list \<Rightarrow> (reg \<times> byte) list" where
  "reads_of [] = []"
| "reads_of (Read r v # es) = (r, v) # reads_of es"
| "reads_of (Write r v # es) = reads_of es"
| "reads_of (Check c b # es) = reads_of es"

text \<open>
  Bit positions of the control register \<open>TWCR\<close>, from the tables in the comments of
  \<open>i2cStart\<close>, \<open>i2cSendAddress\<close> and \<open>i2cStop\<close>:
  \<open>TWINT TWEA TWSTA TWSTO TWWC TWEN - TWIE\<close> are bits 7 down to 0.
\<close>

definition TWINT :: nat where "TWINT = 7"
definition TWSTA :: nat where "TWSTA = 5"
definition TWSTO :: nat where "TWSTO = 4"
definition TWEN :: nat where "TWEN = 2"

text \<open>\<open>#define F_SCL 400000UL\<close> (include/i2c.h).\<close>

definition F_SCL :: ulong where
  "F_SCL = 400000"

text \<open>\<open>TW_STATUS_MASK = 0xF8\<close>, as the comment in \<open>i2cCheckStatus\<close> gives it.\<close>

definition TW_STATUS_MASK :: cint where
  "TW_STATUS_MASK = 0xF8"

section \<open>The driver\<close>

text \<open>
  Integer promotion of a plain \<open>char\<close> to \<open>int\<close>: sign extension where \<open>char\<close> is
  signed, zero extension where it is not.
\<close>

definition promote :: "'h platform \<Rightarrow> byte \<Rightarrow> cint" where
  "promote p c = (if char_signed p then scast c else ucast c)"

text \<open>
  The expression \<open>((F_CPU / (8 * F_SCL)) - 2)\<close> of \<open>i2cInit\<close>, evaluated in
  \<open>unsigned long\<close> and converted to the 8-bit register it is assigned to. The two macros
  are its arguments. (With a bus clock of 0 the C expression divides by zero and has no
  defined value; HOL's \<open>div\<close> gives 0 there, so statements about it assume a positive
  bus clock.)
\<close>

definition bit_rate :: "ulong \<Rightarrow> ulong \<Rightarrow> byte" where
  "bit_rate f_cpu f_scl = ucast ((f_cpu div (8 * f_scl)) - 2)"

definition i2cInit :: "'h platform \<Rightarrow> 'h machine \<Rightarrow> 'h machine" where
  "i2cInit p m = write_reg p TWBR (bit_rate (F_CPU p) F_SCL) (write_reg p TWSR 0 m)"

text \<open>
  \<open>while (!(TWCR & 0x80));\<close> Each iteration loads \<open>TWCR\<close> afresh. The loop has no
  bound: \<open>None\<close> is the run that never leaves it.
\<close>

partial_function (option) i2cAwaitCompletion :: "'h platform \<Rightarrow> 'h machine \<Rightarrow> 'h machine option" where
  "i2cAwaitCompletion p m =
     (if fst (read_reg p TWCR m) AND 0x80 = 0
      then i2cAwaitCompletion p (snd (read_reg p TWCR m))
      else Some (snd (read_reg p TWCR m)))"

text \<open>
  \<open>return (TW_STATUS == expectedStatus);\<close> with \<open>TW_STATUS = (TWSR & TW_STATUS_MASK)\<close>.
  Both operands are promoted to \<open>int\<close> before the comparison; the result is the
  \<open>int\<close> 1 or 0.
\<close>

definition i2cCheckStatus :: "'h platform \<Rightarrow> byte \<Rightarrow> 'h machine \<Rightarrow> cint \<times> 'h machine" where
  "i2cCheckStatus p expectedStatus m =
     (let v = fst (read_reg p TWSR m);
          m1 = snd (read_reg p TWSR m);
          ok = ((ucast v AND TW_STATUS_MASK) = promote p expectedStatus)
      in (if ok then 1 else 0, m1\<lparr>trace := trace m1 @ [Check expectedStatus ok]\<rparr>))"

text \<open>
  The callers of \<open>i2cCheckStatus\<close> inside the driver are statements
  \<open>i2cCheckStatus(CODE);\<close>: the value is dropped. The \<open>int\<close> constant is converted to
  the \<open>char\<close> parameter.
\<close>

definition i2cStart :: "'h platform \<Rightarrow> 'h machine \<Rightarrow> 'h machine option" where
  "i2cStart p m =
     (case i2cAwaitCompletion p (write_reg p TWCR 0xA4 m) of
        None \<Rightarrow> None
      | Some m1 \<Rightarrow> Some (snd (i2cCheckStatus p (ucast (TW_START p)) m1)))"

text \<open>
  \<open>address << 1\<close> is computed in \<open>int\<close> after promotion, masked or or-ed there, and
  converted to the 8-bit data register.
\<close>

definition i2cSendAddress :: "'h platform \<Rightarrow> byte \<Rightarrow> cint \<Rightarrow> 'h machine \<Rightarrow> 'h machine option" where
  "i2cSendAddress p address rw m =
     (let m1 = (if rw \<noteq> 0
                then write_reg p TWDR (ucast (push_bit 1 (promote p address) AND 0xFE)) m
                else write_reg p TWDR (ucast (push_bit 1 (promote p address) OR 0x01)) m)
      in case i2cAwaitCompletion p (write_reg p TWCR 0x84 m1) of
           None \<Rightarrow> None
         | Some m2 \<Rightarrow> Some (snd (i2cCheckStatus p (ucast (TW_MT_SLA_ACK p)) m2)))"

definition i2cSendByte :: "'h platform \<Rightarrow> byte \<Rightarrow> 'h machine \<Rightarrow> 'h machine option" where
  "i2cSendByte p byte m =
     (case i2cAwaitCompletion p (write_reg p TWCR 0x84 (write_reg p TWDR byte m)) of
        None \<Rightarrow> None
      | Some m1 \<Rightarrow> Some (snd (i2cCheckStatus p (ucast (TW_MT_DATA_ACK p)) m1)))"

text \<open>
  \<open>for (int i = 0; i < argc; i++) i2cSendByte(va_arg(valist, int));\<close>
  The variable arguments are the list \<open>va\<close> of \<open>int\<close>s the caller passed; \<open>va_arg\<close>
  takes the next one, and taking one that was not passed is undefined behaviour
  (\<open>Va_arg_missing\<close>). Each \<open>int\<close> is converted to the \<open>char\<close> parameter of
  \<open>i2cSendByte\<close>.
\<close>

datatype fault = Va_arg_missing

fun i2cSendData_loop ::
  "'h platform \<Rightarrow> cint \<Rightarrow> cint \<Rightarrow> cint list \<Rightarrow> 'h machine \<Rightarrow> (fault + 'h machine) option" where
  "i2cSendData_loop p argc i [] m =
     (if i <s argc then Some (Inl Va_arg_missing) else Some (Inr m))"
| "i2cSendData_loop p argc i (a # va) m =
     (if i <s argc
      then (case i2cSendByte p (ucast a) m of
              None \<Rightarrow> None
            | Some m1 \<Rightarrow> i2cSendData_loop p argc (i + 1) va m1)
      else Some (Inr m))"

definition i2cSendData :: "'h platform \<Rightarrow> cint \<Rightarrow> cint list \<Rightarrow> 'h machine \<Rightarrow> (fault + 'h machine) option" where
  "i2cSendData p argc va m = i2cSendData_loop p argc 0 va m"

definition i2cStop :: "'h platform \<Rightarrow> 'h machine \<Rightarrow> 'h machine" where
  "i2cStop p m = write_reg p TWCR 0x94 m"

section \<open>Observing the poll loop\<close>

text \<open>
  \<open>polls p n m\<close> is the machine after \<open>n\<close> successive loads of \<open>TWCR\<close>,
  \<open>poll_values p n m\<close> the values these loads return, and \<open>flag_at p n m\<close> says that
  load number \<open>n\<close> (counting from 0) would show the completion flag, bit 7.
\<close>

fun polls :: "'h platform \<Rightarrow> nat \<Rightarrow> 'h machine \<Rightarrow> 'h machine" where
  "polls p 0 m = m"
| "polls p (Suc n) m = polls p n (snd (read_reg p TWCR m))"

fun poll_values :: "'h platform \<Rightarrow> nat \<Rightarrow> 'h machine \<Rightarrow> byte list" where
  "poll_values p 0 m = []"
| "poll_values p (Suc n) m = fst (read_reg p TWCR m) # poll_values p n (snd (read_reg p TWCR m))"

definition flag_at :: "'h platform \<Rightarrow> nat \<Rightarrow> 'h machine \<Rightarrow> bool" where
  "flag_at p n m = (fst (read_reg p TWCR (polls p n m)) AND 0x80 \<noteq> 0)"

section \<open>Values and observations\<close>

text \<open>The value of a plain \<open>char\<close> as a C integer.\<close>

definition char_value :: "'h platform \<Rightarrow> byte \<Rightarrow> int" where
  "char_value p c = (if char_signed p then sint c else uint c)"

text \<open>
  The address byte as the comment in \<open>i2cSendAddress\<close> and the specification describe
  it: the 7-bit address shifted left by one with the R/W flag in bit 0, where the flag is 1
  to read and 0 to write.
\<close>

definition documented_address_byte :: "byte \<Rightarrow> cint \<Rightarrow> byte" where
  "documented_address_byte address rw = push_bit 1 address OR (if rw \<noteq> 0 then 1 else 0)"

text \<open>
  What a load of \<open>TWSR\<close> returns in machine \<open>m\<close>, and whether its status field equals
  the code \<open>c\<close> as C integers.
\<close>

definition status_seen :: "'h platform \<Rightarrow> 'h machine \<Rightarrow> byte" where
  "status_seen p m = fst (dev_read p TWSR (hw m))"

definition status_matches :: "'h platform \<Rightarrow> byte \<Rightarrow> 'h machine \<Rightarrow> bool" where
  "status_matches p c m = (uint (status_seen p m AND 0xF8) = char_value p c)"

text \<open>
  The specification's description of \<open>i2cSendData\<close>: one call of \<open>i2cSendByte\<close> per
  byte, in order, each on the machine the previous call left.
\<close>

fun sendByte_each :: "'h platform \<Rightarrow> byte list \<Rightarrow> 'h machine \<Rightarrow> 'h machine option" where
  "sendByte_each p [] m = Some m"
| "sendByte_each p (b # bs) m =
     (case i2cSendByte p b m of None \<Rightarrow> None | Some m1 \<Rightarrow> sendByte_each p bs m1)"

text \<open>
  The clock configuration. \<open>clock_writes\<close> are the stores of a trace to the divisor
  register \<open>TWBR\<close> or to \<open>TWSR\<close>, whose low bits are the prescaler. \<open>clock_stable p clk\<close>
  says of a device that the part \<open>clk\<close> of its state changes neither by a load nor by a
  store to \<open>TWCR\<close> or \<open>TWDR\<close>. \<open>keeps_clock\<close> relates two machines: no clock store
  in between, and on such a device the same \<open>clk\<close>.
\<close>

definition clock_writes :: "event list \<Rightarrow> (reg \<times> byte) list" where
  "clock_writes es = filter (\<lambda>w. fst w = TWBR \<or> fst w = TWSR) (writes_of es)"

definition clock_stable :: "'h platform \<Rightarrow> ('h \<Rightarrow> 'c) \<Rightarrow> bool" where
  "clock_stable p clk \<longleftrightarrow>
     (\<forall>r h. clk (snd (dev_read p r h)) = clk h)
     \<and> (\<forall>v h. clk (dev_write p TWCR v h) = clk h)
     \<and> (\<forall>v h. clk (dev_write p TWDR v h) = clk h)"

definition keeps_clock :: "'h platform \<Rightarrow> ('h \<Rightarrow> 'c) \<Rightarrow> 'h machine \<Rightarrow> 'h machine \<Rightarrow> bool" where
  "keeps_clock p clk m m' \<longleftrightarrow>
     clock_writes (trace m') = clock_writes (trace m)
     \<and> (clock_stable p clk \<longrightarrow> clk (hw m') = clk (hw m))"


text \<open>
  One returning call of a driver operation other than \<open>i2cInit\<close> and
  \<open>i2cCheckStatus\<close>.
\<close>

inductive bus_op :: "'h platform \<Rightarrow> 'h machine \<Rightarrow> 'h machine \<Rightarrow> bool" for p where
  op_start: "i2cStart p m = Some m' \<Longrightarrow> bus_op p m m'"
| op_address: "i2cSendAddress p address rw m = Some m' \<Longrightarrow> bus_op p m m'"
| op_byte: "i2cSendByte p byte m = Some m' \<Longrightarrow> bus_op p m m'"
| op_data: "i2cSendData p argc va m = Some (Inr m') \<Longrightarrow> bus_op p m m'"
| op_await: "i2cAwaitCompletion p m = Some m' \<Longrightarrow> bus_op p m m'"
| op_stop: "bus_op p m (i2cStop p m)"

text \<open>
  A trace in which every status comparison is a real one: each \<open>Check\<close> event comes
  directly after a load of \<open>TWSR\<close>, and its outcome is the comparison of the loaded
  value, masked with 0xF8, with the code.
\<close>

inductive status_checked :: "'h platform \<Rightarrow> event list \<Rightarrow> bool" for p where
  sc_empty: "status_checked p []"
| sc_write: "status_checked p es \<Longrightarrow> status_checked p (es @ [Write r v])"
| sc_read: "status_checked p es \<Longrightarrow> status_checked p (es @ [Read r v])"
| sc_check: "status_checked p es \<Longrightarrow>
     status_checked p (es @ [Read TWSR v, Check c (uint (v AND 0xF8) = char_value p c)])"

section \<open>A simulated peripheral for concrete runs\<close>

text \<open>
  A small TWI peripheral, used only to run the driver on concrete inputs. A store to
  \<open>TWCR\<close> starts a bus phase that takes two polls; while it lasts \<open>TWCR\<close> reads with
  TWINT clear, afterwards with TWINT set. \<open>TWSR\<close> reads as the status code the bus
  reports together with the prescaler bits. \<open>atmega\<close> is this peripheral with the
  status codes of avr-libc; \<open>stuck\<close> is a bus that never completes a phase;
  \<open>power_on s\<close> is the initial machine on a bus that will report status \<open>s\<close>.
\<close>

record sim =
  sim_twbr :: byte
  sim_twps :: byte
  sim_status :: byte
  sim_twdr :: byte
  sim_twcr :: byte
  sim_busy :: nat

definition sim_read :: "reg \<Rightarrow> sim \<Rightarrow> byte \<times> sim" where
  "sim_read r h =
     (case r of
        TWBR \<Rightarrow> (sim_twbr h, h)
      | TWSR \<Rightarrow> (sim_status h OR sim_twps h, h)
      | TWDR \<Rightarrow> (sim_twdr h, h)
      | TWCR \<Rightarrow> (if sim_busy h = 0 then (sim_twcr h OR 0x80, h)
                 else (sim_twcr h, h\<lparr>sim_busy := sim_busy h - 1\<rparr>)))"

definition sim_write :: "reg \<Rightarrow> byte \<Rightarrow> sim \<Rightarrow> sim" where
  "sim_write r v h =
     (case r of
        TWBR \<Rightarrow> h\<lparr>sim_twbr := v\<rparr>
      | TWSR \<Rightarrow> h\<lparr>sim_twps := v AND 0x03\<rparr>
      | TWDR \<Rightarrow> h\<lparr>sim_twdr := v\<rparr>
      | TWCR \<Rightarrow> h\<lparr>sim_twcr := v AND 0x7F, sim_busy := 2\<rparr>)"

definition atmega :: "sim platform" where
  "atmega = \<lparr>dev_read = sim_read, dev_write = sim_write, char_signed = True,
     F_CPU = 16000000, TW_START = 0x08, TW_MT_SLA_ACK = 0x18, TW_MT_DATA_ACK = 0x28,
     TW_MR_SLA_ACK = 0x40\<rparr>"

definition stuck :: "sim platform" where
  "stuck = atmega\<lparr>dev_read := (\<lambda>r h. (0, h))\<rparr>"

definition power_on :: "byte \<Rightarrow> sim machine" where
  "power_on s = \<lparr>hw = \<lparr>sim_twbr = 0, sim_twps = 0, sim_status = s, sim_twdr = 0xFF,
      sim_twcr = 0, sim_busy = 2\<rparr>, trace = []\<rparr>"

text \<open>The clock configuration of the simulated peripheral.\<close>

definition sim_clock :: "sim \<Rightarrow> byte \<times> byte" where
  "sim_clock h = (sim_twbr h, sim_twps h)"

section \<open>Basic facts about loads and stores\<close>

lemma trace_write_reg: "trace (write_reg p r v m) = trace m @ [Write r v]"
  by (simp add: write_reg_def)

lemma trace_read_reg: "trace (snd (read_reg p r m)) = trace m @ [Read r (fst (read_reg p r m))]"
  by (simp add: read_reg_def)

lemma writes_of_append: "writes_of (es @ fs) = writes_of es @ writes_of fs"
  by (induction es rule: writes_of.induct) simp_all

lemma checks_of_append: "checks_of (es @ fs) = checks_of es @ checks_of fs"
  by (induction es rule: checks_of.induct) simp_all

lemma reads_of_append: "reads_of (es @ fs) = reads_of es @ reads_of fs"
  by (induction es rule: reads_of.induct) simp_all

section \<open>The poll loop\<close>

lemma flag_at_Suc: "flag_at p (Suc n) m = flag_at p n (snd (read_reg p TWCR m))"
  by (simp add: flag_at_def)

lemma await_first:
  "flag_at p n m \<Longrightarrow> (\<forall>k<n. \<not> flag_at p k m) \<Longrightarrow> i2cAwaitCompletion p m = Some (polls p (Suc n) m)"
proof (induction n arbitrary: m)
  case 0
  then show ?case
    by (subst i2cAwaitCompletion.simps) (simp add: flag_at_def)
next
  case (Suc n)
  from Suc.prems(2) have z: "\<not> flag_at p 0 m" by blast
  have f: "flag_at p n (snd (read_reg p TWCR m))"
    using Suc.prems(1) by (simp add: flag_at_Suc)
  have g: "\<forall>k<n. \<not> flag_at p k (snd (read_reg p TWCR m))"
  proof (intro allI impI)
    fix k assume "k < n"
    then have "Suc k < Suc n" by simp
    with Suc.prems(2) have "\<not> flag_at p (Suc k) m" by blast
    then show "\<not> flag_at p k (snd (read_reg p TWCR m))" by (simp add: flag_at_Suc)
  qed
  have "i2cAwaitCompletion p m = i2cAwaitCompletion p (snd (read_reg p TWCR m))"
    using z by (subst i2cAwaitCompletion.simps) (simp add: flag_at_def)
  also have "\<dots> = Some (polls p (Suc n) (snd (read_reg p TWCR m)))"
    by (rule Suc.IH [OF f g])
  finally show ?case by simp
qed

lemma await_Some:
  assumes ret: "i2cAwaitCompletion p0 m0 = Some m0'"
  shows "\<exists>n. flag_at p0 n m0 \<and> (\<forall>k<n. \<not> flag_at p0 k m0) \<and> m0' = polls p0 (Suc n) m0"
proof (rule i2cAwaitCompletion.raw_induct
    [where P = "\<lambda>p m m'. \<exists>n. flag_at p n m \<and> (\<forall>k<n. \<not> flag_at p k m) \<and> m' = polls p (Suc n) m",
     OF _ ret])
  fix await :: "'a platform \<Rightarrow> 'a machine \<Rightarrow> 'a machine option" and p m m'
  assume IH: "\<And>p m y. await p m = Some y \<Longrightarrow>
     \<exists>n. flag_at p n m \<and> (\<forall>k<n. \<not> flag_at p k m) \<and> y = polls p (Suc n) m"
  assume body: "(if fst (read_reg p TWCR m) AND 0x80 = 0
      then await p (snd (read_reg p TWCR m))
      else Some (snd (read_reg p TWCR m))) = Some m'"
  show "\<exists>n. flag_at p n m \<and> (\<forall>k<n. \<not> flag_at p k m) \<and> m' = polls p (Suc n) m"
  proof (cases "fst (read_reg p TWCR m) AND 0x80 = 0")
    case True
    with body have "await p (snd (read_reg p TWCR m)) = Some m'" by simp
    from IH [OF this] obtain n where n:
      "flag_at p n (snd (read_reg p TWCR m))"
      "\<forall>k<n. \<not> flag_at p k (snd (read_reg p TWCR m))"
      "m' = polls p (Suc n) (snd (read_reg p TWCR m))" by blast
    have "\<forall>k<Suc n. \<not> flag_at p k m"
    proof (intro allI impI)
      fix k assume k: "k < Suc n"
      show "\<not> flag_at p k m"
      proof (cases k)
        case 0
        with True show ?thesis by (simp add: flag_at_def)
      next
        case (Suc j)
        with k n(2) show ?thesis by (simp add: flag_at_Suc)
      qed
    qed
    moreover have "flag_at p (Suc n) m" using n(1) by (simp add: flag_at_Suc)
    moreover have "m' = polls p (Suc (Suc n)) m" using n(3) by simp
    ultimately show ?thesis by blast
  next
    case False
    with body have "m' = polls p (Suc 0) m" by simp
    moreover from False have "flag_at p 0 m" by (simp add: flag_at_def)
    ultimately show ?thesis by blast
  qed
qed

lemma await_eventually:
  assumes "flag_at p n m"
  shows "\<exists>m'. i2cAwaitCompletion p m = Some m'"
proof -
  define j where "j = (LEAST k. flag_at p k m)"
  have "flag_at p j m" unfolding j_def using assms by (rule LeastI)
  moreover have "\<forall>k<j. \<not> flag_at p k m"
    unfolding j_def using not_less_Least by blast
  ultimately show ?thesis using await_first by blast
qed

lemma await_never:
  "(\<forall>n. \<not> flag_at p n m) \<Longrightarrow> i2cAwaitCompletion p m = None"
  using await_Some [of p m] by (cases "i2cAwaitCompletion p m") auto

lemma trace_polls: "trace (polls p n m) = trace m @ map (Read TWCR) (poll_values p n m)"
  by (induction n arbitrary: m) (simp_all add: trace_read_reg)

lemma writes_of_Reads: "writes_of (map (Read r) vs) = []"
  by (induction vs) simp_all

lemma checks_of_Reads: "checks_of (map (Read r) vs) = []"
  by (induction vs) simp_all

section \<open>\<open>i2cAwaitCompletion\<close>\<close>

lemma flag_is_TWINT: "(v :: byte) AND 0x80 \<noteq> 0 \<longleftrightarrow> bit v TWINT"
proof -
  have "(0x80 :: byte) = push_bit 7 1" by simp
  then show ?thesis
    unfolding TWINT_def by (simp only: bit_iff_and_push_bit_not_eq_0)
qed

text \<open>
  C8. \<open>i2cAwaitCompletion\<close> returns exactly when a load of \<open>TWCR\<close> shows bit 7
  (TWINT) set:
  it returns the machine reached by the first load that shows the flag, having done
  nothing but loads of \<open>TWCR\<close> (no store, no status comparison). If some load would
  eventually show the flag, the loop terminates; if none ever does, it never returns.
\<close>

theorem i2cAwaitCompletion_returns_iff_flag:
  "(i2cAwaitCompletion p m = Some m' \<longleftrightarrow>
      (\<exists>n. flag_at p n m \<and> (\<forall>k<n. \<not> flag_at p k m) \<and> m' = polls p (Suc n) m))
   \<and> ((\<exists>n. flag_at p n m) \<longrightarrow> (\<exists>m1. i2cAwaitCompletion p m = Some m1))
   \<and> ((\<forall>n. \<not> flag_at p n m) \<longrightarrow> i2cAwaitCompletion p m = None)
   \<and> (i2cAwaitCompletion p m = Some m' \<longrightarrow>
        writes_of (trace m') = writes_of (trace m)
        \<and> checks_of (trace m') = checks_of (trace m)
        \<and> (\<exists>n. trace m' = trace m @ map (Read TWCR) (poll_values p (Suc n) m)))
   \<and> (flag_at p j m \<longleftrightarrow> bit (fst (read_reg p TWCR (polls p j m))) TWINT)"
proof (intro conjI impI)
  show "flag_at p j m \<longleftrightarrow> bit (fst (read_reg p TWCR (polls p j m))) TWINT"
    unfolding flag_at_def by (rule flag_is_TWINT)
next
  show "i2cAwaitCompletion p m = Some m' \<longleftrightarrow>
      (\<exists>n. flag_at p n m \<and> (\<forall>k<n. \<not> flag_at p k m) \<and> m' = polls p (Suc n) m)"
    using await_Some [of p m m'] await_first [of p _ m] by blast
next
  assume "\<exists>n. flag_at p n m"
  then show "\<exists>m1. i2cAwaitCompletion p m = Some m1"
    using await_eventually by blast
next
  assume "\<forall>n. \<not> flag_at p n m"
  then show "i2cAwaitCompletion p m = None" by (rule await_never)
next
  assume r: "i2cAwaitCompletion p m = Some m'"
  from await_Some [OF r] obtain n where n: "m' = polls p (Suc n) m" by blast
  show "writes_of (trace m') = writes_of (trace m)"
    unfolding n trace_polls writes_of_append writes_of_Reads by simp
  show "checks_of (trace m') = checks_of (trace m)"
    unfolding n trace_polls checks_of_append checks_of_Reads by simp
  show "\<exists>n. trace m' = trace m @ map (Read TWCR) (poll_values p (Suc n) m)"
    using n trace_polls by blast
qed

lemma atmega_flags:
  "\<not> flag_at atmega 0 (power_on s)"
  "\<not> flag_at atmega (Suc 0) (power_on s)"
  "flag_at atmega (Suc (Suc 0)) (power_on s)"
  by (simp_all add: flag_at_def read_reg_def atmega_def power_on_def sim_read_def)

lemma stuck_flags: "\<not> flag_at stuck n m"
  by (simp add: flag_at_def read_reg_def stuck_def)

theorem i2cAwaitCompletion_returns_iff_flag_witness:
  "\<not> flag_at atmega 0 (power_on 0) \<and> \<not> flag_at atmega (Suc 0) (power_on 0)
   \<and> flag_at atmega (Suc (Suc 0)) (power_on 0)
   \<and> i2cAwaitCompletion atmega (power_on 0) = Some (polls atmega (Suc (Suc (Suc 0))) (power_on 0))
   \<and> trace (polls atmega (Suc (Suc (Suc 0))) (power_on 0)) = [Read TWCR 0, Read TWCR 0, Read TWCR 0x80]
   \<and> writes_of (trace (polls atmega (Suc (Suc (Suc 0))) (power_on 0))) = writes_of (trace (power_on 0))
   \<and> (\<forall>n. \<not> flag_at stuck n (power_on 0))
   \<and> i2cAwaitCompletion stuck (power_on 0) = None"
proof -
  let ?m = "power_on 0" and ?m' = "polls atmega (Suc (Suc (Suc 0))) (power_on 0)"
  have before: "\<forall>k<Suc (Suc 0). \<not> flag_at atmega k ?m"
    by (simp add: less_Suc_eq atmega_flags)
  have ret: "i2cAwaitCompletion atmega ?m = Some ?m'"
    using i2cAwaitCompletion_returns_iff_flag [of atmega ?m ?m'] atmega_flags(3) before by blast
  have wr: "writes_of (trace ?m') = writes_of (trace ?m)"
    using i2cAwaitCompletion_returns_iff_flag [of atmega ?m ?m'] ret by blast
  have tr: "trace ?m' = [Read TWCR 0, Read TWCR 0, Read TWCR 0x80]"
    by (simp add: read_reg_def atmega_def power_on_def sim_read_def)
  have never: "\<forall>n. \<not> flag_at stuck n ?m"
    by (simp add: stuck_flags)
  have hang: "i2cAwaitCompletion stuck ?m = None"
    using i2cAwaitCompletion_returns_iff_flag [of stuck ?m] never by blast
  show ?thesis
    using atmega_flags [of 0] ret wr tr never hang by simp
qed


section \<open>\<open>i2cStop\<close>\<close>

text \<open>
  C7. \<open>i2cStop\<close> returns from every state (it is a total function of the state), and all
  it does is one store to the control register, of a pattern with TWSTO set, TWSTA clear
  and TWEN set: it adds no load (so no poll of the completion flag) and no status
  comparison to the trace.
\<close>

theorem i2cStop_single_write:
  "trace (i2cStop p m) = trace m @ [Write TWCR 0x94]
   \<and> hw (i2cStop p m) = dev_write p TWCR 0x94 (hw m)
   \<and> bit (0x94 :: byte) TWSTO \<and> \<not> bit (0x94 :: byte) TWSTA \<and> bit (0x94 :: byte) TWEN
   \<and> reads_of (trace (i2cStop p m)) = reads_of (trace m)
   \<and> checks_of (trace (i2cStop p m)) = checks_of (trace m)"
  by (simp add: i2cStop_def write_reg_def TWSTO_def TWSTA_def TWEN_def
      reads_of_append checks_of_append)

theorem i2cStop_single_write_witness:
  "trace (i2cStop atmega (power_on 0)) = [Write TWCR 0x94]
   \<and> sim_busy (hw (i2cStop atmega (power_on 0))) = 2
   \<and> reads_of (trace (i2cStop atmega (power_on 0))) = []"
  using i2cStop_single_write [of atmega "power_on 0"]
  by (simp add: power_on_def atmega_def sim_write_def)

section \<open>Integer promotion and the status comparison\<close>

lemma sint_scast_byte: "sint (scast (c::byte) :: cint) = sint c"
  by (rule sint_up_scast) (simp add: is_up)

lemma sint_ucast_byte: "sint (ucast (a::byte) :: cint) = uint a"
proof -
  have "uint a < 2 ^ 8" using uint_lt2p [of a] by simp
  then have b: "uint a < 2 ^ 15" by simp
  have "- (2 ^ 15) \<le> (0::int)" by simp
  also have "0 \<le> uint a" by simp
  finally have "- (2 ^ 15) \<le> uint a" .
  with b show ?thesis
    by (simp add: signed_ucast_eq signed_take_bit_int_eq_self)
qed

lemma ucast_and_mask: "(ucast (v::byte) :: cint) AND 0xF8 = ucast (v AND 0xF8)"
  by (simp add: unsigned_and_eq)

lemma promoted_value: "sint (promote p c) = char_value p c"
  by (simp add: promote_def char_value_def sint_scast_byte sint_ucast_byte)

lemma status_compare:
  "((ucast (v::byte) AND TW_STATUS_MASK) = promote p c) \<longleftrightarrow> (uint (v AND 0xF8) = char_value p c)"
proof -
  have "((ucast v AND TW_STATUS_MASK) = promote p c)
      \<longleftrightarrow> (sint (ucast (v AND 0xF8) :: cint) = sint (promote p c))"
    unfolding TW_STATUS_MASK_def ucast_and_mask by (rule word_eq_iff_signed)
  then show ?thesis by (simp only: sint_ucast_byte promoted_value)
qed

lemma sint_small_byte: "(c::byte) < 0x80 \<Longrightarrow> sint c = uint c"
proof -
  assume "c < 0x80"
  then have "uint c < 2 ^ 7" by (simp add: word_less_def)
  moreover have "- (2 ^ 7) \<le> (0::int)" by simp
  then have "- (2 ^ 7) \<le> uint c" using uint_ge_0 [of c] by (rule order_trans)
  ultimately show ?thesis
    by (simp add: sint_uint signed_take_bit_int_eq_self)
qed

lemma char_value_byte:
  "\<not> char_signed p \<or> c < 0x80 \<Longrightarrow> char_value p c = uint c"
  by (auto simp: char_value_def sint_small_byte)

lemma fst_i2cCheckStatus:
  "fst (i2cCheckStatus p c m) =
     (if uint (fst (dev_read p TWSR (hw m)) AND 0xF8) = char_value p c then 1 else 0)"
  by (simp add: i2cCheckStatus_def Let_def status_compare read_reg_def)

lemma trace_i2cCheckStatus:
  "trace (snd (i2cCheckStatus p c m)) =
     trace m @ [Read TWSR (fst (dev_read p TWSR (hw m))),
                Check c (uint (fst (dev_read p TWSR (hw m)) AND 0xF8) = char_value p c)]"
  by (simp add: i2cCheckStatus_def Let_def status_compare read_reg_def)

lemma top_set: "(0x80 :: byte) \<le> c \<Longrightarrow> bit c 7"
proof (rule ccontr)
  assume big: "(0x80 :: byte) \<le> c" and clear: "\<not> bit c 7"
  have "take_bit 7 c = c"
  proof (rule bit_word_eqI)
    fix n assume "n < LENGTH(8)"
    then have "n < 7 \<or> n = 7" by auto
    with clear show "bit (take_bit 7 c) n \<longleftrightarrow> bit c n"
      by (auto simp: bit_take_bit_iff)
  qed
  then have "c = c AND mask 7" by (simp add: take_bit_eq_mask)
  moreover have "c AND mask 7 < 2 ^ 7" by (rule and_mask_less_size) (simp add: word_size)
  ultimately have "c < 2 ^ 7" by simp
  then have "c < 0x80" by simp
  with big show False by simp
qed

lemma sint_big_byte: "(0x80 :: byte) \<le> c \<Longrightarrow> sint c < 0"
proof -
  assume "(0x80 :: byte) \<le> c"
  then have "bit c 7" by (rule top_set)
  then have "bit c (LENGTH(8) - Suc 0)" by simp
  then show ?thesis by (simp only: bit_last_iff)
qed

lemma signed_big_code_never_matches:
  "char_signed p \<Longrightarrow> 0x80 \<le> c \<Longrightarrow> fst (i2cCheckStatus p c m) = 0"
proof -
  assume s: "char_signed p" and b: "0x80 \<le> c"
  from b have "sint c < 0" by (rule sint_big_byte)
  moreover have "0 \<le> uint (fst (dev_read p TWSR (hw m)) AND 0xF8)" by simp
  ultimately have "uint (fst (dev_read p TWSR (hw m)) AND 0xF8) \<noteq> sint c"
    by linarith
  then have "uint (fst (dev_read p TWSR (hw m)) AND 0xF8) \<noteq> char_value p c"
    using s by (simp add: char_value_def)
  then show ?thesis by (simp add: fst_i2cCheckStatus)
qed

section \<open>A bus phase: poll, then compare the status\<close>

lemma trace_check:
  "trace (snd (i2cCheckStatus p c m)) =
     trace m @ [Read TWSR (status_seen p m), Check c (status_matches p c m)]"
  by (simp add: trace_i2cCheckStatus status_seen_def status_matches_def)

lemma phase_Some:
  assumes "(case i2cAwaitCompletion p m1 of None \<Rightarrow> None
            | Some m2 \<Rightarrow> Some (snd (i2cCheckStatus p c m2))) = Some m'"
  shows "\<exists>n. flag_at p n m1 \<and> (\<forall>k<n. \<not> flag_at p k m1)
            \<and> m' = snd (i2cCheckStatus p c (polls p (Suc n) m1))"
proof (cases "i2cAwaitCompletion p m1")
  case None
  with assms show ?thesis by simp
next
  case (Some m2)
  with assms have m': "m' = snd (i2cCheckStatus p c m2)" by simp
  from await_Some [OF Some] obtain n where
    "flag_at p n m1" "\<forall>k<n. \<not> flag_at p k m1" "m2 = polls p (Suc n) m1" by blast
  with m' show ?thesis by blast
qed

lemma phase_None:
  "(case i2cAwaitCompletion p m1 of None \<Rightarrow> None
    | Some m2 \<Rightarrow> Some (snd (i2cCheckStatus p c m2))) = None \<longleftrightarrow> (\<forall>n. \<not> flag_at p n m1)"
proof
  assume "(case i2cAwaitCompletion p m1 of None \<Rightarrow> None
    | Some m2 \<Rightarrow> Some (snd (i2cCheckStatus p c m2))) = None"
  then have "i2cAwaitCompletion p m1 = None" by (simp split: option.splits)
  then show "\<forall>n. \<not> flag_at p n m1" using await_eventually [of p _ m1] by fastforce
next
  assume "\<forall>n. \<not> flag_at p n m1"
  then have "i2cAwaitCompletion p m1 = None" by (rule await_never)
  then show "(case i2cAwaitCompletion p m1 of None \<Rightarrow> None
    | Some m2 \<Rightarrow> Some (snd (i2cCheckStatus p c m2))) = None" by simp
qed

lemma trace_phase:
  "trace (snd (i2cCheckStatus p c (polls p n m1))) =
     trace m1 @ map (Read TWCR) (poll_values p n m1)
       @ [Read TWSR (status_seen p (polls p n m1)), Check c (status_matches p c (polls p n m1))]"
  by (simp add: trace_check trace_polls)

lemma writes_phase:
  "writes_of (trace (snd (i2cCheckStatus p c (polls p n m1)))) = writes_of (trace m1)"
  by (simp add: trace_phase writes_of_append writes_of_Reads)

lemma checks_phase:
  "checks_of (trace (snd (i2cCheckStatus p c (polls p n m1)))) =
     checks_of (trace m1) @ [(c, status_matches p c (polls p n m1))]"
  by (simp add: trace_phase checks_of_append checks_of_Reads)

lemma control_patterns:
  "bit (0xA4 :: byte) TWSTA" "\<not> bit (0xA4 :: byte) TWSTO" "bit (0xA4 :: byte) TWEN"
  "\<not> bit (0x84 :: byte) TWSTA" "\<not> bit (0x84 :: byte) TWSTO" "bit (0x84 :: byte) TWEN"
  by (simp_all add: TWSTA_def TWSTO_def TWEN_def)

lemmas sim_run = i2cAwaitCompletion.simps i2cCheckStatus_def Let_def
      write_reg_def read_reg_def atmega_def power_on_def sim_read_def sim_write_def
      promote_def TW_STATUS_MASK_def

section \<open>\<open>i2cCheckStatus\<close>\<close>

text \<open>
  C5, as the claim states it, fails where plain \<open>char\<close> is signed: the code 0xF8 is
  then the integer -8, and with the status register at 0xF8 the masked status is 248, so
  the result is 0 although the bytes are equal.
\<close>

theorem i2cCheckStatus_signed_char_counterexample:
  "char_signed atmega
   \<and> status_seen atmega (power_on 0xF8) AND 0xF8 = 0xF8
   \<and> fst (i2cCheckStatus atmega 0xF8 (power_on 0xF8)) = 0"
proof -
  have a: "char_signed atmega" by (simp add: atmega_def)
  have b: "status_seen atmega (power_on 0xF8) AND 0xF8 = 0xF8"
    by (simp add: status_seen_def atmega_def power_on_def sim_read_def)
  have c: "fst (i2cCheckStatus atmega 0xF8 (power_on 0xF8)) = 0"
    by (rule signed_big_code_never_matches [OF a]) simp
  from a b c show ?thesis by blast
qed

text \<open>
  C5, amended. \<open>i2cCheckStatus\<close> returns 1 exactly when the status register masked with
  0xF8 equals the expected code, both read as C integers (the comparison is made after
  integer promotion of the \<open>char\<close> parameter), and 0 otherwise. Where plain \<open>char\<close> is
  unsigned, or the code is below 0x80, this is equality of the bytes; where it is signed
  and the code is 0x80 or more, the result is 0 for every status. The call loads \<open>TWSR\<close>
  once and stores to no register.
\<close>

theorem i2cCheckStatus_compares_masked_status:
  "fst (i2cCheckStatus p code m) =
     (if uint (fst (dev_read p TWSR (hw m)) AND 0xF8) = char_value p code then 1 else 0)
   \<and> (\<not> char_signed p \<or> code < 0x80 \<longrightarrow>
        (fst (i2cCheckStatus p code m) = 1 \<longleftrightarrow> fst (dev_read p TWSR (hw m)) AND 0xF8 = code))
   \<and> (char_signed p \<and> 0x80 \<le> code \<longrightarrow> fst (i2cCheckStatus p code m) = 0)
   \<and> writes_of (trace (snd (i2cCheckStatus p code m))) = writes_of (trace m)
   \<and> reads_of (trace (snd (i2cCheckStatus p code m))) =
        reads_of (trace m) @ [(TWSR, fst (dev_read p TWSR (hw m)))]"
proof (intro conjI impI)
  assume "char_signed p \<and> 0x80 \<le> code"
  then show "fst (i2cCheckStatus p code m) = 0"
    using signed_big_code_never_matches [of p code m] by blast
next
  show "fst (i2cCheckStatus p code m) =
     (if uint (fst (dev_read p TWSR (hw m)) AND 0xF8) = char_value p code then 1 else 0)"
    by (rule fst_i2cCheckStatus)
next
  assume "\<not> char_signed p \<or> code < 0x80"
  then have "char_value p code = uint code" by (rule char_value_byte)
  then show "fst (i2cCheckStatus p code m) = 1 \<longleftrightarrow> fst (dev_read p TWSR (hw m)) AND 0xF8 = code"
    by (simp add: fst_i2cCheckStatus word_uint_eq_iff)
next
  show "writes_of (trace (snd (i2cCheckStatus p code m))) = writes_of (trace m)"
    by (simp add: trace_i2cCheckStatus writes_of_append)
next
  show "reads_of (trace (snd (i2cCheckStatus p code m))) =
        reads_of (trace m) @ [(TWSR, fst (dev_read p TWSR (hw m)))]"
    by (simp add: trace_i2cCheckStatus reads_of_append)
qed

theorem i2cCheckStatus_compares_masked_status_witness:
  "fst (i2cCheckStatus atmega 0x28 (power_on 0x28)) = 1
   \<and> fst (i2cCheckStatus atmega 0x28 (power_on 0x30)) = 0
   \<and> fst (i2cCheckStatus atmega 0x28 (power_on 0xF8)) = 0
   \<and> (0x28 :: byte) < 0x80
   \<and> char_signed atmega \<and> (0x80 :: byte) \<le> 0xF8
   \<and> fst (i2cCheckStatus atmega 0xF8 (power_on 0xF8)) = 0
   \<and> writes_of (trace (snd (i2cCheckStatus atmega 0x28 (power_on 0x28)))) = []"
proof -
  have small: "\<not> char_signed atmega \<or> (0x28 :: byte) < 0x80" by simp
  have big: "char_signed atmega \<and> (0x80 :: byte) \<le> 0xF8" by (simp add: atmega_def)
  note t = i2cCheckStatus_compares_masked_status [where p = atmega]
  from t [of "0x28" "power_on 0x28"] small
  have "fst (i2cCheckStatus atmega 0x28 (power_on 0x28)) = 1
      \<longleftrightarrow> fst (dev_read atmega TWSR (hw (power_on 0x28))) AND 0xF8 = 0x28" by blast
  then have r1: "fst (i2cCheckStatus atmega 0x28 (power_on 0x28)) = 1"
    by (simp add: atmega_def power_on_def sim_read_def)
  from t [of "0x28" "power_on 0x30"] small
  have "fst (i2cCheckStatus atmega 0x28 (power_on 0x30)) = 1
      \<longleftrightarrow> fst (dev_read atmega TWSR (hw (power_on 0x30))) AND 0xF8 = 0x28" by blast
  then have "fst (i2cCheckStatus atmega 0x28 (power_on 0x30)) \<noteq> 1"
    by (simp add: atmega_def power_on_def sim_read_def)
  moreover from t [of "0x28" "power_on 0x30"]
  have "fst (i2cCheckStatus atmega 0x28 (power_on 0x30)) = 1
      \<or> fst (i2cCheckStatus atmega 0x28 (power_on 0x30)) = 0"
    by (metis (full_types))
  ultimately have r2: "fst (i2cCheckStatus atmega 0x28 (power_on 0x30)) = 0" by blast
  from t [of "0x28" "power_on 0xF8"] small
  have "fst (i2cCheckStatus atmega 0x28 (power_on 0xF8)) = 1
      \<longleftrightarrow> fst (dev_read atmega TWSR (hw (power_on 0xF8))) AND 0xF8 = 0x28" by blast
  then have "fst (i2cCheckStatus atmega 0x28 (power_on 0xF8)) \<noteq> 1"
    by (simp add: atmega_def power_on_def sim_read_def)
  moreover from t [of "0x28" "power_on 0xF8"]
  have "fst (i2cCheckStatus atmega 0x28 (power_on 0xF8)) = 1
      \<or> fst (i2cCheckStatus atmega 0x28 (power_on 0xF8)) = 0"
    by (metis (full_types))
  ultimately have r3: "fst (i2cCheckStatus atmega 0x28 (power_on 0xF8)) = 0" by blast
  from t [of "0xF8" "power_on 0xF8"] big
  have r4: "fst (i2cCheckStatus atmega 0xF8 (power_on 0xF8)) = 0" by blast
  from t [of "0x28" "power_on 0x28"]
  have "writes_of (trace (snd (i2cCheckStatus atmega 0x28 (power_on 0x28))))
      = writes_of (trace (power_on 0x28))" by blast
  then have w: "writes_of (trace (snd (i2cCheckStatus atmega 0x28 (power_on 0x28)))) = []"
    by (simp add: power_on_def)
  from r1 r2 r3 r4 big w show ?thesis by simp
qed

section \<open>\<open>i2cStart\<close>\<close>

text \<open>
  C6. \<open>i2cStart\<close> stores 0xA4 to the control register (TWSTA and TWEN set, TWSTO
  clear), then polls \<open>TWCR\<close> until a load shows the completion flag, then loads the status
  and compares it with \<open>TW_START\<close>, in this order and with no other store. It returns
  exactly when the poll loop ends; it never returns if the flag never shows.
\<close>

theorem i2cStart_sequence:
  "(i2cStart p m = Some m' \<longrightarrow>
      (\<exists>n. flag_at p n (write_reg p TWCR 0xA4 m)
         \<and> (\<forall>k<n. \<not> flag_at p k (write_reg p TWCR 0xA4 m))
         \<and> trace m' = trace m @ [Write TWCR 0xA4]
              @ map (Read TWCR) (poll_values p (Suc n) (write_reg p TWCR 0xA4 m))
              @ [Read TWSR (status_seen p (polls p (Suc n) (write_reg p TWCR 0xA4 m))),
                 Check (ucast (TW_START p))
                   (status_matches p (ucast (TW_START p)) (polls p (Suc n) (write_reg p TWCR 0xA4 m)))]))
   \<and> (i2cStart p m = Some m' \<longrightarrow> writes_of (trace m') = writes_of (trace m) @ [(TWCR, 0xA4)])
   \<and> (i2cStart p m = None \<longleftrightarrow> (\<forall>n. \<not> flag_at p n (write_reg p TWCR 0xA4 m)))
   \<and> bit (0xA4 :: byte) TWSTA \<and> \<not> bit (0xA4 :: byte) TWSTO \<and> bit (0xA4 :: byte) TWEN"
proof (intro conjI impI)
  assume r: "i2cStart p m = Some m'"
  from phase_Some [OF r [unfolded i2cStart_def]] obtain n where n:
    "flag_at p n (write_reg p TWCR 0xA4 m)"
    "\<forall>k<n. \<not> flag_at p k (write_reg p TWCR 0xA4 m)"
    "m' = snd (i2cCheckStatus p (ucast (TW_START p)) (polls p (Suc n) (write_reg p TWCR 0xA4 m)))"
    by blast
  have "trace m' = trace m @ [Write TWCR 0xA4]
              @ map (Read TWCR) (poll_values p (Suc n) (write_reg p TWCR 0xA4 m))
              @ [Read TWSR (status_seen p (polls p (Suc n) (write_reg p TWCR 0xA4 m))),
                 Check (ucast (TW_START p))
                   (status_matches p (ucast (TW_START p)) (polls p (Suc n) (write_reg p TWCR 0xA4 m)))]"
    unfolding n(3) trace_phase trace_write_reg by simp
  with n(1,2) show "\<exists>n. flag_at p n (write_reg p TWCR 0xA4 m)
         \<and> (\<forall>k<n. \<not> flag_at p k (write_reg p TWCR 0xA4 m))
         \<and> trace m' = trace m @ [Write TWCR 0xA4]
              @ map (Read TWCR) (poll_values p (Suc n) (write_reg p TWCR 0xA4 m))
              @ [Read TWSR (status_seen p (polls p (Suc n) (write_reg p TWCR 0xA4 m))),
                 Check (ucast (TW_START p))
                   (status_matches p (ucast (TW_START p)) (polls p (Suc n) (write_reg p TWCR 0xA4 m)))]"
    by blast
  show "writes_of (trace m') = writes_of (trace m) @ [(TWCR, 0xA4)]"
    unfolding n(3) writes_phase trace_write_reg writes_of_append by simp
next
  show "i2cStart p m = None \<longleftrightarrow> (\<forall>n. \<not> flag_at p n (write_reg p TWCR 0xA4 m))"
    unfolding i2cStart_def by (rule phase_None)
qed (rule control_patterns)+

theorem i2cStart_sequence_witness:
  "map_option trace (i2cStart atmega (power_on 0x08)) =
     Some [Write TWCR 0xA4, Read TWCR 0x24, Read TWCR 0x24, Read TWCR 0xA4,
           Read TWSR 0x08, Check 0x08 True]
   \<and> (\<exists>m'. i2cStart atmega (power_on 0x08) = Some m' \<and> writes_of (trace m') = [(TWCR, 0xA4)])
   \<and> (\<forall>n. \<not> flag_at stuck n (write_reg stuck TWCR 0xA4 (power_on 0x08)))
   \<and> i2cStart stuck (power_on 0x08) = None"
proof -
  have ev: "map_option trace (i2cStart atmega (power_on 0x08)) =
     Some [Write TWCR 0xA4, Read TWCR 0x24, Read TWCR 0x24, Read TWCR 0xA4,
           Read TWSR 0x08, Check 0x08 True]"
    by (simp add: i2cStart_def sim_run)
  then obtain M where M: "i2cStart atmega (power_on 0x08) = Some M" by auto
  from i2cStart_sequence [of atmega "power_on 0x08" M] M
  have "writes_of (trace M) = writes_of (trace (power_on 0x08)) @ [(TWCR, 0xA4)]" by blast
  then have wr: "writes_of (trace M) = [(TWCR, 0xA4)]" by (simp add: power_on_def)
  have never: "\<forall>n. \<not> flag_at stuck n (write_reg stuck TWCR 0xA4 (power_on 0x08))"
    by (simp add: stuck_flags)
  with i2cStart_sequence [of stuck "power_on 0x08"]
  have hang: "i2cStart stuck (power_on 0x08) = None" by blast
  from ev M wr never hang show ?thesis by blast
qed

section \<open>The address byte\<close>

lemma down_shift_ucast: "(ucast (push_bit k (ucast (a::byte) :: cint)) :: byte) = push_bit k a"
  by (rule bit_word_eqI) (auto simp: bit_simps)

lemma down_shift_scast: "(ucast (push_bit k (scast (a::byte) :: cint)) :: byte) = push_bit k a"
  by (rule bit_word_eqI) (auto simp: bit_simps)

lemma down_and: "(ucast ((x::cint) AND y) :: byte) = ucast x AND ucast y"
  by (rule bit_word_eqI) (auto simp: bit_simps)

lemma down_or: "(ucast ((x::cint) OR y) :: byte) = ucast x OR ucast y"
  by (rule bit_word_eqI) (auto simp: bit_simps)

lemma bit_FE: "n < 8 \<Longrightarrow> bit (0xFE :: byte) n \<longleftrightarrow> n \<noteq> 0"
proof -
  assume "n < 8"
  then consider "n = 0" | "n = 1" | "n = 2" | "n = 3" | "n = 4" | "n = 5" | "n = 6" | "n = 7"
    by linarith
  then show ?thesis by cases simp_all
qed

lemma shl_and_FE: "0 < k \<Longrightarrow> push_bit k (a::byte) AND 0xFE = push_bit k a"
proof (rule bit_word_eqI)
  fix n assume k: "0 < k" and n: "n < LENGTH(8)"
  then have n8: "n < 8" by simp
  show "bit (push_bit k a AND 0xFE) n = bit (push_bit k a) n"
  proof (cases "n = 0")
    case True
    with k show ?thesis by (simp add: bit_and_iff bit_push_bit_iff)
  next
    case False
    have "bit (0xFE :: byte) n" using bit_FE [OF n8] False by blast
    then show ?thesis by (simp add: bit_and_iff)
  qed
qed

lemma down_shift_promote: "(ucast (push_bit k (promote p a)) :: byte) = push_bit k a"
  by (simp add: promote_def down_shift_ucast down_shift_scast)

lemma staged_write: "(ucast (push_bit 1 (promote p a) AND 0xFE) :: byte) = push_bit 1 a"
proof -
  have "(ucast (push_bit 1 (promote p a) AND 0xFE) :: byte) = push_bit 1 a AND 0xFE"
    unfolding down_and down_shift_promote by simp
  also have "\<dots> = push_bit 1 a" by (rule shl_and_FE) simp
  finally show ?thesis .
qed

lemma staged_read: "(ucast (push_bit 1 (promote p a) OR 0x01) :: byte) = push_bit 1 a OR 1"
  unfolding down_or down_shift_promote by simp

lemma bit0_staged: "0 < k \<Longrightarrow> bit (push_bit k (a::byte) OR d) 0 = bit d 0"
  by (simp add: bit_or_iff bit_push_bit_iff)

lemma top_clear: "(a::byte) < 0x80 \<Longrightarrow> \<not> bit a 7"
proof -
  assume "a < 0x80"
  then have "a < 2 ^ 7" by simp
  then have "a AND mask 7 = a" by (rule less_mask_eq)
  then have "take_bit 7 a = a" by (simp add: take_bit_eq_mask)
  then have "bit a 7 = bit (take_bit 7 a) 7" by simp
  then show "\<not> bit a 7" by (simp add: bit_take_bit_iff)
qed

lemma drop_staged_gen:
  fixes a d :: byte
  assumes a: "\<And>n. n < 8 \<Longrightarrow> 8 \<le> n + k \<Longrightarrow> \<not> bit a n" and d: "\<And>n. k \<le> n \<Longrightarrow> \<not> bit d n"
  shows "drop_bit k (push_bit k a OR d) = a"
proof (rule bit_word_eqI)
  fix n assume "n < LENGTH(8)"
  then have n: "n < 8" by simp
  have "\<not> bit d (k + n)" by (rule d) simp
  then have "bit (drop_bit k (push_bit k a OR d)) n \<longleftrightarrow> (k + n < 8 \<and> bit a n)"
    by (simp add: bit_drop_bit_eq bit_or_iff bit_push_bit_iff)
  also have "\<dots> \<longleftrightarrow> bit a n"
  proof -
    have "k + n < 8" if "bit a n"
    proof (rule ccontr)
      assume "\<not> k + n < 8"
      then have "8 \<le> n + k" by simp
      from a [OF n this] that show False by simp
    qed
    then show ?thesis by auto
  qed
  finally show "bit (drop_bit k (push_bit k a OR d)) n \<longleftrightarrow> bit a n" .
qed

lemma drop_staged:
  fixes a d :: byte
  assumes "a < 0x80" and "d = 0 \<or> d = 1"
  shows "drop_bit 1 (push_bit 1 a OR d) = a"
proof (rule drop_staged_gen)
  fix n :: nat assume "n < 8" and "8 \<le> n + 1"
  then have "n = 7" by simp
  with top_clear [OF assms(1)] show "\<not> bit a n" by simp
next
  fix n :: nat assume "1 \<le> n"
  with assms(2) show "\<not> bit d n" by (auto simp: bit_1_iff)
qed

lemma staged_byte:
  "(if rw \<noteq> 0 then write_reg p TWDR (ucast (push_bit 1 (promote p address) AND 0xFE)) m
    else write_reg p TWDR (ucast (push_bit 1 (promote p address) OR 0x01)) m)
   = write_reg p TWDR (push_bit 1 address OR (if rw \<noteq> 0 then 0 else 1)) m"
  by (simp only: staged_write staged_read if_distrib [of "\<lambda>d. push_bit 1 address OR d"]
      if_distrib [of "\<lambda>v. write_reg p TWDR v m"] or.right_neutral)

lemma i2cSendAddress_eq:
  "i2cSendAddress p address rw m =
     (case i2cAwaitCompletion p (write_reg p TWCR 0x84
             (write_reg p TWDR (push_bit 1 address OR (if rw \<noteq> 0 then 0 else 1)) m)) of
        None \<Rightarrow> None
      | Some m2 \<Rightarrow> Some (snd (i2cCheckStatus p (ucast (TW_MT_SLA_ACK p)) m2)))"
  unfolding i2cSendAddress_def Let_def staged_byte ..

lemma bit0_code: "bit (push_bit 1 (address :: byte) OR (if rw \<noteq> (0 :: cint) then 0 else 1)) 0 \<longleftrightarrow> rw = 0"
proof -
  have "bit (push_bit 1 address OR (if rw \<noteq> 0 then 0 else 1)) 0
      = bit (if rw \<noteq> 0 then 0 else 1 :: byte) 0"
    by (rule bit0_staged) simp
  then show ?thesis by simp
qed

lemma bit0_documented: "bit (documented_address_byte address rw) 0 \<longleftrightarrow> rw \<noteq> 0"
proof -
  have "bit (push_bit 1 address OR (if rw \<noteq> 0 then 1 else 0)) 0
      = bit (if rw \<noteq> 0 then 1 else 0 :: byte) 0"
    by (rule bit0_staged) simp
  then show ?thesis by (simp add: documented_address_byte_def)
qed

lemma code_differs:
  "push_bit 1 address OR (if rw \<noteq> 0 then 0 else 1) \<noteq> documented_address_byte address rw"
proof
  assume "push_bit 1 address OR (if rw \<noteq> 0 then 0 else 1) = documented_address_byte address rw"
  then have "bit (push_bit 1 address OR (if rw \<noteq> 0 then 0 else 1)) 0
      = bit (documented_address_byte address rw) 0" by simp
  then show False unfolding bit0_code bit0_documented by simp
qed

lemma drop_code:
  "(address :: byte) < 0x80 \<Longrightarrow>
   drop_bit 1 (push_bit 1 address OR (if rw \<noteq> (0 :: cint) then 0 else 1)) = address"
  by (rule drop_staged) auto

text \<open>
  C1. \<open>i2cSendAddress\<close> stores the address in bits 7 to 1 of the data register and
  then 0x84 to the control register, but bit 0 of the stored byte is the negation of the
  \<open>rw\<close> argument: 1 when \<open>rw\<close> is 0 and 0 when \<open>rw\<close> is not 0. The byte the
  comment and the specification describe has the flag's own value there, so for every
  address and every \<open>rw\<close> the stored byte differs from it in bit 0. With address 0x50
  the code stores 0xA0 for \<open>rw = 1\<close> (documented: 0xA1) and 0xA1 for \<open>rw = 0\<close>
  (documented: 0xA0).
\<close>

theorem i2cSendAddress_direction_bit_inverted:
  "i2cSendAddress p address rw m =
     (case i2cAwaitCompletion p (write_reg p TWCR 0x84
             (write_reg p TWDR (push_bit 1 address OR (if rw \<noteq> 0 then 0 else 1)) m)) of
        None \<Rightarrow> None
      | Some m2 \<Rightarrow> Some (snd (i2cCheckStatus p (ucast (TW_MT_SLA_ACK p)) m2)))
   \<and> (i2cSendAddress p address rw m = Some m' \<longrightarrow>
        writes_of (trace m') = writes_of (trace m)
          @ [(TWDR, push_bit 1 address OR (if rw \<noteq> 0 then 0 else 1)), (TWCR, 0x84)])
   \<and> (address < 0x80 \<longrightarrow>
        drop_bit 1 (push_bit 1 address OR (if rw \<noteq> 0 then 0 else 1)) = address)
   \<and> (bit (push_bit 1 address OR (if rw \<noteq> 0 then 0 else 1)) 0 \<longleftrightarrow> rw = 0)
   \<and> (bit (documented_address_byte address rw) 0 \<longleftrightarrow> rw \<noteq> 0)
   \<and> push_bit 1 address OR (if rw \<noteq> 0 then 0 else 1) \<noteq> documented_address_byte address rw
   \<and> documented_address_byte 0x50 1 = 0xA1
   \<and> documented_address_byte 0x50 0 = 0xA0
   \<and> map_option (\<lambda>m. writes_of (trace m)) (i2cSendAddress atmega 0x50 1 (power_on 0x40))
       = Some [(TWDR, 0xA0), (TWCR, 0x84)]
   \<and> map_option (\<lambda>m. writes_of (trace m)) (i2cSendAddress atmega 0x50 0 (power_on 0x18))
       = Some [(TWDR, 0xA1), (TWCR, 0x84)]"
proof (intro conjI impI)
  show "i2cSendAddress p address rw m =
     (case i2cAwaitCompletion p (write_reg p TWCR 0x84
             (write_reg p TWDR (push_bit 1 address OR (if rw \<noteq> 0 then 0 else 1)) m)) of
        None \<Rightarrow> None
      | Some m2 \<Rightarrow> Some (snd (i2cCheckStatus p (ucast (TW_MT_SLA_ACK p)) m2)))"
    by (rule i2cSendAddress_eq)
next
  assume r: "i2cSendAddress p address rw m = Some m'"
  from phase_Some [OF r [unfolded i2cSendAddress_eq]] obtain n where
    "m' = snd (i2cCheckStatus p (ucast (TW_MT_SLA_ACK p)) (polls p (Suc n)
       (write_reg p TWCR 0x84
         (write_reg p TWDR (push_bit 1 address OR (if rw \<noteq> 0 then 0 else 1)) m))))"
    by blast
  then show "writes_of (trace m') = writes_of (trace m)
          @ [(TWDR, push_bit 1 address OR (if rw \<noteq> 0 then 0 else 1)), (TWCR, 0x84)]"
    by (simp only: writes_phase trace_write_reg writes_of_append writes_of.simps append_assoc
        append.simps)
next
  assume "address < 0x80"
  then show "drop_bit 1 (push_bit 1 address OR (if rw \<noteq> 0 then 0 else 1)) = address"
    by (rule drop_code)
next
  show "bit (push_bit 1 address OR (if rw \<noteq> 0 then 0 else 1)) 0 \<longleftrightarrow> rw = 0"
    by (rule bit0_code)
next
  show "bit (documented_address_byte address rw) 0 \<longleftrightarrow> rw \<noteq> 0"
    by (rule bit0_documented)
next
  show "push_bit 1 address OR (if rw \<noteq> 0 then 0 else 1) \<noteq> documented_address_byte address rw"
    by (rule code_differs)
next
  show "documented_address_byte 0x50 1 = 0xA1"
    by (simp add: documented_address_byte_def)
next
  show "documented_address_byte 0x50 0 = 0xA0"
    by (simp add: documented_address_byte_def)
next
  show "map_option (\<lambda>m. writes_of (trace m)) (i2cSendAddress atmega 0x50 1 (power_on 0x40))
       = Some [(TWDR, 0xA0), (TWCR, 0x84)]"
    by (simp add: i2cSendAddress_def sim_run)
next
  show "map_option (\<lambda>m. writes_of (trace m)) (i2cSendAddress atmega 0x50 0 (power_on 0x18))
       = Some [(TWDR, 0xA1), (TWCR, 0x84)]"
    by (simp add: i2cSendAddress_def sim_run)
qed

theorem i2cSendAddress_direction_bit_inverted_witness:
  "(0x50 :: byte) < 0x80
   \<and> drop_bit 1 (0xA0 :: byte) = 0x50 \<and> drop_bit 1 (0xA1 :: byte) = 0x50
   \<and> (\<exists>m'. i2cSendAddress atmega 0x50 1 (power_on 0x40) = Some m'
         \<and> writes_of (trace m') = [(TWDR, 0xA0), (TWCR, 0x84)])
   \<and> (\<exists>m'. i2cSendAddress atmega 0x50 0 (power_on 0x18) = Some m'
         \<and> writes_of (trace m') = [(TWDR, 0xA1), (TWCR, 0x84)])
   \<and> documented_address_byte 0x50 1 = 0xA1
   \<and> documented_address_byte 0x50 0 = 0xA0"
proof -
  have a: "(0x50 :: byte) < 0x80" by simp
  have b1: "push_bit 1 (0x50 :: byte) OR (if (1 :: cint) \<noteq> 0 then 0 else 1) = 0xA0"
    and b0: "push_bit 1 (0x50 :: byte) OR (if (0 :: cint) \<noteq> 0 then 0 else 1) = 0xA1"
    by simp_all
  obtain M1 where M1: "i2cSendAddress atmega 0x50 1 (power_on 0x40) = Some M1"
    by (simp add: i2cSendAddress_def sim_run)
  obtain M0 where M0: "i2cSendAddress atmega 0x50 0 (power_on 0x18) = Some M0"
    by (simp add: i2cSendAddress_def sim_run)
  note t1 = i2cSendAddress_direction_bit_inverted [of atmega "0x50" 1 "power_on 0x40" M1]
  note t0 = i2cSendAddress_direction_bit_inverted [of atmega "0x50" 0 "power_on 0x18" M0]
  from t1 M1 have "writes_of (trace M1) = writes_of (trace (power_on 0x40))
          @ [(TWDR, push_bit 1 0x50 OR (if (1 :: cint) \<noteq> 0 then 0 else 1)), (TWCR, 0x84)]"
    by blast
  then have w1: "writes_of (trace M1) = [(TWDR, 0xA0), (TWCR, 0x84)]"
    by (simp only: b1) (simp add: power_on_def)
  from t0 M0 have "writes_of (trace M0) = writes_of (trace (power_on 0x18))
          @ [(TWDR, push_bit 1 0x50 OR (if (0 :: cint) \<noteq> 0 then 0 else 1)), (TWCR, 0x84)]"
    by blast
  then have w0: "writes_of (trace M0) = [(TWDR, 0xA1), (TWCR, 0x84)]"
    by (simp only: b0) (simp add: power_on_def)
  from t1 a have "drop_bit 1 (push_bit 1 (0x50 :: byte) OR (if (1 :: cint) \<noteq> 0 then 0 else 1)) = 0x50"
    by blast
  then have d1: "drop_bit 1 (0xA0 :: byte) = 0x50" by (simp only: b1)
  from t0 a have "drop_bit 1 (push_bit 1 (0x50 :: byte) OR (if (0 :: cint) \<noteq> 0 then 0 else 1)) = 0x50"
    by blast
  then have d0: "drop_bit 1 (0xA1 :: byte) = 0x50" by (simp only: b0)
  from t1 have doc: "documented_address_byte 0x50 1 = 0xA1" "documented_address_byte 0x50 0 = 0xA0"
    by blast+
  from a M1 M0 w1 w0 d1 d0 doc show ?thesis by simp
qed

section \<open>\<open>i2cInit\<close>\<close>

lemma unat_times8:
  fixes f_scl :: ulong
  assumes "8 * unat f_scl < 2 ^ 32"
  shows "unat (8 * f_scl) = 8 * unat f_scl"
proof -
  have "unat (8 * f_scl) = (unat (8 :: ulong) * unat f_scl) mod 2 ^ LENGTH(32)"
    by (rule unat_word_ariths)
  also have "\<dots> = (8 * unat f_scl) mod 2 ^ 32" by simp
  also have "\<dots> = 8 * unat f_scl" using assms by simp
  finally show ?thesis .
qed

lemma unat_down_byte:
  fixes w :: ulong
  shows "unat (ucast w :: byte) = unat w mod 256"
  by (simp add: unsigned_ucast_eq take_bit_eq_mod)

lemma unat_minus2:
  fixes w :: ulong
  assumes "2 \<le> unat w"
  shows "unat (w - 2) = unat w - 2"
proof -
  from assms have "(2 :: ulong) \<le> w" by (simp add: word_le_nat_alt)
  then have "unat (w - 2) = unat w - unat (2 :: ulong)" by (rule unat_sub)
  then show ?thesis by simp
qed

lemma unat_bit_rate:
  assumes pos: "0 < unat f_scl" and big: "16 * unat f_scl \<le> unat f_cpu"
  shows "unat (bit_rate f_cpu f_scl) = (unat f_cpu div (8 * unat f_scl) - 2) mod 256"
proof -
  have "unat f_cpu < 2 ^ 32" using unsigned_less [of f_cpu, where ?'a = nat] by simp
  with big have "8 * unat f_scl < 2 ^ 32" by simp
  then have t8: "unat (8 * f_scl) = 8 * unat f_scl" by (rule unat_times8)
  have q: "unat (f_cpu div (8 * f_scl)) = unat f_cpu div (8 * unat f_scl)"
    by (simp add: unat_div t8)
  from pos have p8: "0 < 8 * unat f_scl" by simp
  have "2 * (8 * unat f_scl) \<le> unat f_cpu" using big by simp
  then have "2 \<le> unat f_cpu div (8 * unat f_scl)"
    using p8 by (simp add: less_eq_div_iff_mult_less_eq)
  then have "2 \<le> unat (f_cpu div (8 * f_scl))" by (simp only: q)
  then have "unat (f_cpu div (8 * f_scl) - 2) = unat (f_cpu div (8 * f_scl)) - 2"
    by (rule unat_minus2)
  then show ?thesis
    by (simp add: bit_rate_def unat_down_byte q)
qed

lemma bit_rate_16MHz: "bit_rate 16000000 F_SCL = 3"
  by (simp add: bit_rate_def F_SCL_def)

lemma bit_rate_1GHz: "bit_rate 1000000000 F_SCL = 54"
  by (simp add: bit_rate_def F_SCL_def)

lemma trace_i2cInit:
  "trace (i2cInit p m) = trace m @ [Write TWSR 0, Write TWBR (bit_rate (F_CPU p) F_SCL)]"
  by (simp add: i2cInit_def trace_write_reg)

text \<open>
  C2, as the claim states it, fails: the divisor register is 8 bits wide, so a quotient
  beyond 257 does not arrive in it. With the bus clock of the source and a processor clock
  of 1 GHz the formula gives 310 and the register receives 54.
\<close>

theorem i2cInit_divisor_counterexample:
  "16 * unat F_SCL \<le> unat (1000000000 :: ulong)
   \<and> unat (1000000000 :: ulong) div (8 * unat F_SCL) - 2 = 310
   \<and> writes_of (trace (i2cInit (atmega\<lparr>F_CPU := 1000000000\<rparr>) (power_on 0))) = [(TWSR, 0), (TWBR, 54)]
   \<and> unat (bit_rate 1000000000 F_SCL) \<noteq> unat (1000000000 :: ulong) div (8 * unat F_SCL) - 2"
proof -
  have a: "16 * unat F_SCL \<le> unat (1000000000 :: ulong)"
    and b: "unat (1000000000 :: ulong) div (8 * unat F_SCL) - 2 = 310"
    by (simp_all add: F_SCL_def)
  have c: "writes_of (trace (i2cInit (atmega\<lparr>F_CPU := 1000000000\<rparr>) (power_on 0)))
      = [(TWSR, 0), (TWBR, 54)]"
    by (simp add: trace_i2cInit power_on_def atmega_def bit_rate_1GHz)
  have d: "unat (bit_rate 1000000000 F_SCL) \<noteq> unat (1000000000 :: ulong) div (8 * unat F_SCL) - 2"
    unfolding b bit_rate_1GHz by simp
  from a b c d show ?thesis by blast
qed

text \<open>
  C2, amended. \<open>i2cInit\<close> stores 0 to \<open>TWSR\<close> (prescaler bits 1 and 0 clear: the
  divide-by-1 setting) and then the divisor to \<open>TWBR\<close>. For every processor clock and
  every positive bus clock with \<open>f_cpu \<ge> 16 * f_scl\<close> whose quotient minus 2 fits the
  8-bit register, the divisor is \<open>f_cpu div (8 * f_scl) - 2\<close>; in general it is that value
  modulo 256. At 16 MHz with the 400 kHz bus clock it is 3.
\<close>

theorem i2cInit_writes_clock_configuration:
  "trace (i2cInit p m) = trace m @ [Write TWSR 0, Write TWBR (bit_rate (F_CPU p) F_SCL)]
   \<and> (0 < unat f_scl \<and> 16 * unat f_scl \<le> unat f_cpu
        \<and> unat f_cpu div (8 * unat f_scl) - 2 \<le> 255
       \<longrightarrow> unat (bit_rate f_cpu f_scl) = unat f_cpu div (8 * unat f_scl) - 2)
   \<and> (0 < unat f_scl \<and> 16 * unat f_scl \<le> unat f_cpu
       \<longrightarrow> unat (bit_rate f_cpu f_scl) = (unat f_cpu div (8 * unat f_scl) - 2) mod 256)
   \<and> \<not> bit (0 :: byte) 0 \<and> \<not> bit (0 :: byte) 1
   \<and> bit_rate 16000000 F_SCL = 3"
proof (intro conjI impI)
  show "trace (i2cInit p m) = trace m @ [Write TWSR 0, Write TWBR (bit_rate (F_CPU p) F_SCL)]"
    by (rule trace_i2cInit)
next
  assume h: "0 < unat f_scl \<and> 16 * unat f_scl \<le> unat f_cpu
        \<and> unat f_cpu div (8 * unat f_scl) - 2 \<le> 255"
  then have "unat (bit_rate f_cpu f_scl) = (unat f_cpu div (8 * unat f_scl) - 2) mod 256"
    by (simp add: unat_bit_rate)
  also have "\<dots> = unat f_cpu div (8 * unat f_scl) - 2"
    using h by simp
  finally show "unat (bit_rate f_cpu f_scl) = unat f_cpu div (8 * unat f_scl) - 2" .
next
  assume "0 < unat f_scl \<and> 16 * unat f_scl \<le> unat f_cpu"
  then show "unat (bit_rate f_cpu f_scl) = (unat f_cpu div (8 * unat f_scl) - 2) mod 256"
    by (simp add: unat_bit_rate)
next
  show "bit_rate 16000000 F_SCL = 3" by (rule bit_rate_16MHz)
qed simp_all

theorem i2cInit_writes_clock_configuration_witness:
  "0 < unat F_SCL \<and> 16 * unat F_SCL \<le> unat (16000000 :: ulong)
   \<and> unat (16000000 :: ulong) div (8 * unat F_SCL) - 2 = 3
   \<and> unat (bit_rate 16000000 F_SCL) = 3
   \<and> trace (i2cInit atmega (power_on 0)) = [Write TWSR 0, Write TWBR 3]
   \<and> sim_twbr (hw (i2cInit atmega (power_on 0))) = 3
   \<and> sim_twps (hw (i2cInit atmega (power_on 0))) = 0"
proof -
  have h: "0 < unat F_SCL \<and> 16 * unat F_SCL \<le> unat (16000000 :: ulong)
      \<and> unat (16000000 :: ulong) div (8 * unat F_SCL) - 2 \<le> 255"
    by (simp add: F_SCL_def)
  note t = i2cInit_writes_clock_configuration [of atmega "power_on 0" F_SCL 16000000]
  from t h have "unat (bit_rate 16000000 F_SCL) = unat (16000000 :: ulong) div (8 * unat F_SCL) - 2"
    by blast
  moreover have q: "unat (16000000 :: ulong) div (8 * unat F_SCL) - 2 = 3"
    by (simp add: F_SCL_def)
  ultimately have u: "unat (bit_rate 16000000 F_SCL) = 3" by simp
  from t have b: "bit_rate 16000000 F_SCL = 3" by blast
  from t have "trace (i2cInit atmega (power_on 0))
      = trace (power_on 0) @ [Write TWSR 0, Write TWBR (bit_rate (F_CPU atmega) F_SCL)]" by blast
  then have tr: "trace (i2cInit atmega (power_on 0)) = [Write TWSR 0, Write TWBR 3]"
    by (simp add: power_on_def atmega_def b)
  have hwv: "sim_twbr (hw (i2cInit atmega (power_on 0))) = 3
      \<and> sim_twps (hw (i2cInit atmega (power_on 0))) = 0"
    by (simp add: i2cInit_def write_reg_def atmega_def power_on_def sim_write_def b)
  from h q u tr hwv show ?thesis by simp
qed

section \<open>\<open>i2cSendByte\<close>\<close>

lemma hw_check: "hw (snd (i2cCheckStatus p c m)) = snd (dev_read p TWSR (hw m))"
  by (simp add: i2cCheckStatus_def Let_def read_reg_def)

text \<open>
  C3. A returning \<open>i2cSendByte\<close> has made the status comparison (it is in the trace,
  with its outcome) and dropped its result: what comes back is the machine alone. Whether
  the call returns, the stores it makes and the state it leaves the device in are the same
  whatever the comparison gave.
\<close>

theorem i2cSendByte_discards_status:
  "(i2cSendByte p byte m = Some m' \<longrightarrow>
      (\<exists>n. flag_at p n (write_reg p TWCR 0x84 (write_reg p TWDR byte m))
         \<and> (\<forall>k<n. \<not> flag_at p k (write_reg p TWCR 0x84 (write_reg p TWDR byte m)))
         \<and> m' = snd (i2cCheckStatus p (ucast (TW_MT_DATA_ACK p))
                  (polls p (Suc n) (write_reg p TWCR 0x84 (write_reg p TWDR byte m))))
         \<and> checks_of (trace m') = checks_of (trace m)
              @ [(ucast (TW_MT_DATA_ACK p),
                  status_matches p (ucast (TW_MT_DATA_ACK p))
                    (polls p (Suc n) (write_reg p TWCR 0x84 (write_reg p TWDR byte m))))]
         \<and> hw m' = snd (dev_read p TWSR
              (hw (polls p (Suc n) (write_reg p TWCR 0x84 (write_reg p TWDR byte m)))))))
   \<and> (i2cSendByte p byte m = Some m' \<longrightarrow>
        writes_of (trace m') = writes_of (trace m) @ [(TWDR, byte), (TWCR, 0x84)])
   \<and> (i2cSendByte p byte m = None \<longleftrightarrow>
        (\<forall>n. \<not> flag_at p n (write_reg p TWCR 0x84 (write_reg p TWDR byte m))))"
proof (intro conjI impI)
  let ?m1 = "write_reg p TWCR 0x84 (write_reg p TWDR byte m)"
  let ?c = "ucast (TW_MT_DATA_ACK p) :: byte"
  assume r: "i2cSendByte p byte m = Some m'"
  from phase_Some [OF r [unfolded i2cSendByte_def]] obtain n where n:
    "flag_at p n ?m1" "\<forall>k<n. \<not> flag_at p k ?m1"
    "m' = snd (i2cCheckStatus p ?c (polls p (Suc n) ?m1))"
    by blast
  have c: "checks_of (trace m') = checks_of (trace m) @ [(?c, status_matches p ?c (polls p (Suc n) ?m1))]"
    unfolding n(3) checks_phase trace_write_reg checks_of_append by simp
  have h: "hw m' = snd (dev_read p TWSR (hw (polls p (Suc n) ?m1)))"
    unfolding n(3) by (rule hw_check)
  from n c h show "\<exists>n. flag_at p n ?m1 \<and> (\<forall>k<n. \<not> flag_at p k ?m1)
         \<and> m' = snd (i2cCheckStatus p ?c (polls p (Suc n) ?m1))
         \<and> checks_of (trace m') = checks_of (trace m) @ [(?c, status_matches p ?c (polls p (Suc n) ?m1))]
         \<and> hw m' = snd (dev_read p TWSR (hw (polls p (Suc n) ?m1)))"
    by blast
  show "writes_of (trace m') = writes_of (trace m) @ [(TWDR, byte), (TWCR, 0x84)]"
    unfolding n(3) writes_phase trace_write_reg writes_of_append by simp
next
  show "i2cSendByte p byte m = None \<longleftrightarrow>
        (\<forall>n. \<not> flag_at p n (write_reg p TWCR 0x84 (write_reg p TWDR byte m)))"
    unfolding i2cSendByte_def by (rule phase_None)
qed

theorem i2cSendByte_discards_status_witness:
  "map_option trace (i2cSendByte atmega 0x41 (power_on 0x28)) =
     Some [Write TWDR 0x41, Write TWCR 0x84, Read TWCR 4, Read TWCR 4, Read TWCR 0x84,
           Read TWSR 0x28, Check 0x28 True]
   \<and> map_option trace (i2cSendByte atmega 0x41 (power_on 0x30)) =
     Some [Write TWDR 0x41, Write TWCR 0x84, Read TWCR 4, Read TWCR 4, Read TWCR 0x84,
           Read TWSR 0x30, Check 0x28 False]
   \<and> (\<exists>m'. i2cSendByte atmega 0x41 (power_on 0x28) = Some m'
          \<and> writes_of (trace m') = [(TWDR, 0x41), (TWCR, 0x84)])
   \<and> (\<exists>m'. i2cSendByte atmega 0x41 (power_on 0x30) = Some m'
          \<and> writes_of (trace m') = [(TWDR, 0x41), (TWCR, 0x84)])
   \<and> i2cSendByte stuck 0x41 (power_on 0x28) = None"
proof -
  have ack: "map_option trace (i2cSendByte atmega 0x41 (power_on 0x28)) =
     Some [Write TWDR 0x41, Write TWCR 0x84, Read TWCR 4, Read TWCR 4, Read TWCR 0x84,
           Read TWSR 0x28, Check 0x28 True]"
    by (simp add: i2cSendByte_def sim_run)
  have nack: "map_option trace (i2cSendByte atmega 0x41 (power_on 0x30)) =
     Some [Write TWDR 0x41, Write TWCR 0x84, Read TWCR 4, Read TWCR 4, Read TWCR 0x84,
           Read TWSR 0x30, Check 0x28 False]"
    by (simp add: i2cSendByte_def sim_run)
  from ack obtain A where A: "i2cSendByte atmega 0x41 (power_on 0x28) = Some A" by auto
  from nack obtain N where N: "i2cSendByte atmega 0x41 (power_on 0x30) = Some N" by auto
  from i2cSendByte_discards_status [of atmega "0x41" "power_on 0x28" A] A
  have "writes_of (trace A) = writes_of (trace (power_on 0x28)) @ [(TWDR, 0x41), (TWCR, 0x84)]"
    by blast
  then have wa: "writes_of (trace A) = [(TWDR, 0x41), (TWCR, 0x84)]" by (simp add: power_on_def)
  from i2cSendByte_discards_status [of atmega "0x41" "power_on 0x30" N] N
  have "writes_of (trace N) = writes_of (trace (power_on 0x30)) @ [(TWDR, 0x41), (TWCR, 0x84)]"
    by blast
  then have wn: "writes_of (trace N) = [(TWDR, 0x41), (TWCR, 0x84)]" by (simp add: power_on_def)
  have "\<forall>n. \<not> flag_at stuck n (write_reg stuck TWCR 0x84 (write_reg stuck TWDR 0x41 (power_on 0x28)))"
    by (simp add: stuck_flags)
  with i2cSendByte_discards_status [of stuck "0x41" "power_on 0x28"]
  have hang: "i2cSendByte stuck 0x41 (power_on 0x28) = None" by blast
  from ack nack A N wa wn hang show ?thesis by blast
qed

section \<open>\<open>i2cSendData\<close>\<close>

lemma sint_of_nat_small:
  assumes "n < 2 ^ 15"
  shows "sint (of_nat n :: cint) = int n"
proof -
  have "- (2 ^ 15) \<le> (0 :: int)" by simp
  also have "0 \<le> int n" by simp
  finally have lo: "- (2 ^ 15) \<le> int n" .
  from assms have hi: "int n < 2 ^ 15" by simp
  show ?thesis
    using signed_take_bit_int_eq_self [OF lo hi] by (simp add: signed_of_nat)
qed

lemma sless_of_nat:
  assumes "i < 2 ^ 15" "n < 2 ^ 15"
  shows "(of_nat i :: cint) <s of_nat n \<longleftrightarrow> i < n"
  unfolding word_sless_alt sint_of_nat_small [OF assms(1)] sint_of_nat_small [OF assms(2)]
  by simp

lemma loop_is_each:
  "i + length va < 2 ^ 15 \<Longrightarrow>
   i2cSendData_loop p (of_nat (i + length va)) (of_nat i) va m
     = map_option Inr (sendByte_each p (map ucast va) m)"
proof (induction va arbitrary: i m)
  case Nil
  have "\<not> (of_nat i :: cint) <s of_nat i" by (simp add: word_sless_alt)
  then show ?case by simp
next
  case (Cons a va)
  let ?argc = "of_nat (i + length (a # va)) :: cint"
  from Cons.prems have i: "i < 2 ^ 15" and n: "i + length (a # va) < 2 ^ 15" by simp_all
  have "i < i + length (a # va)" by simp
  then have lt: "(of_nat i :: cint) <s ?argc"
    by (simp only: sless_of_nat [OF i n])
  have step: "i2cSendData_loop p ?argc (of_nat i) (a # va) m =
      (case i2cSendByte p (ucast a) m of None \<Rightarrow> None
       | Some m1 \<Rightarrow> i2cSendData_loop p ?argc (of_nat i + 1) va m1)"
    using lt by (simp only: i2cSendData_loop.simps if_True)
  have next_i: "(of_nat i + 1 :: cint) = of_nat (Suc i)" by simp
  have same_argc: "?argc = of_nat (Suc i + length va)" by simp
  from Cons.prems have "Suc i + length va < 2 ^ 15" by simp
  from Cons.IH [OF this]
  have IH: "\<And>m1. i2cSendData_loop p ?argc (of_nat i + 1) va m1
        = map_option Inr (sendByte_each p (map ucast va) m1)"
    unfolding next_i same_argc .
  show ?case
    unfolding step IH by (simp split: option.splits)
qed

lemma i2cSendData_is_each:
  "length va < 2 ^ 15 \<Longrightarrow>
   i2cSendData p (of_nat (length va)) va m = map_option Inr (sendByte_each p (map ucast va) m)"
  using loop_is_each [of 0 va p m] by (simp add: i2cSendData_def)

lemma each_writes:
  "sendByte_each p bs m = Some m' \<Longrightarrow>
   writes_of (trace m') = writes_of (trace m) @ concat (map (\<lambda>b. [(TWDR, b), (TWCR, 0x84)]) bs)"
proof (induction bs arbitrary: m)
  case Nil
  then show ?case by simp
next
  case (Cons b bs)
  from Cons.prems obtain m1 where m1: "i2cSendByte p b m = Some m1"
    and rest: "sendByte_each p bs m1 = Some m'"
    by (auto split: option.splits)
  from phase_Some [OF m1 [unfolded i2cSendByte_def]] obtain n where
    "m1 = snd (i2cCheckStatus p (ucast (TW_MT_DATA_ACK p))
       (polls p (Suc n) (write_reg p TWCR 0x84 (write_reg p TWDR b m))))" by blast
  then have "writes_of (trace m1) = writes_of (trace m) @ [(TWDR, b), (TWCR, 0x84)]"
    by (simp only: writes_phase trace_write_reg writes_of_append writes_of.simps append_assoc
        append.simps)
  with Cons.IH [OF rest] show ?case by simp
qed

lemma each_checks:
  "sendByte_each p bs m = Some m' \<Longrightarrow>
   length (checks_of (trace m')) = length (checks_of (trace m)) + length bs"
proof (induction bs arbitrary: m)
  case Nil
  then show ?case by simp
next
  case (Cons b bs)
  from Cons.prems obtain m1 where m1: "i2cSendByte p b m = Some m1"
    and rest: "sendByte_each p bs m1 = Some m'"
    by (auto split: option.splits)
  from phase_Some [OF m1 [unfolded i2cSendByte_def]] obtain n where
    "m1 = snd (i2cCheckStatus p (ucast (TW_MT_DATA_ACK p))
       (polls p (Suc n) (write_reg p TWCR 0x84 (write_reg p TWDR b m))))" by blast
  then have "checks_of (trace m1) = checks_of (trace m)
      @ [(ucast (TW_MT_DATA_ACK p), status_matches p (ucast (TW_MT_DATA_ACK p))
           (polls p (Suc n) (write_reg p TWCR 0x84 (write_reg p TWDR b m))))]"
    by (simp only: checks_phase trace_write_reg checks_of_append checks_of.simps append_Nil2)
  then have "length (checks_of (trace m1)) = length (checks_of (trace m)) + 1"
    by simp
  with Cons.IH [OF rest] show ?case by simp
qed

text \<open>
  C4. Called with \<open>n\<close> arguments and \<open>argc = n\<close>, \<open>i2cSendData\<close> is \<open>n\<close> calls of
  \<open>i2cSendByte\<close> on the arguments in order: the same result, whether that is a machine
  or a call that never returns. No outcome of a status comparison ends the sequence early:
  whenever the calls return, every byte has been stored to the data register and
  transmitted, and one comparison has been made per byte, whatever the comparisons gave.
\<close>

theorem i2cSendData_is_sequential_sendByte:
  "(length va < 2 ^ 15 \<longrightarrow>
      i2cSendData p (of_nat (length va)) va m = map_option Inr (sendByte_each p (map ucast va) m))
   \<and> (sendByte_each p bs m = Some m' \<longrightarrow>
        writes_of (trace m') = writes_of (trace m) @ concat (map (\<lambda>b. [(TWDR, b), (TWCR, 0x84)]) bs)
        \<and> length (checks_of (trace m')) = length (checks_of (trace m)) + length bs)"
  using i2cSendData_is_each [of va p m] each_writes [of p bs m m'] each_checks [of p bs m m']
  by blast

theorem i2cSendData_is_sequential_sendByte_witness:
  "length [0x10, 0x20, 0x30 :: cint] < 2 ^ 15
   \<and> map_option (map_sum id trace) (i2cSendData atmega 3 [0x10, 0x20, 0x30] (power_on 0x30)) =
       Some (Inr
         [Write TWDR 0x10, Write TWCR 0x84, Read TWCR 4, Read TWCR 4, Read TWCR 0x84,
          Read TWSR 0x30, Check 0x28 False,
          Write TWDR 0x20, Write TWCR 0x84, Read TWCR 4, Read TWCR 4, Read TWCR 0x84,
          Read TWSR 0x30, Check 0x28 False,
          Write TWDR 0x30, Write TWCR 0x84, Read TWCR 4, Read TWCR 4, Read TWCR 0x84,
          Read TWSR 0x30, Check 0x28 False])
   \<and> i2cSendData atmega 3 [0x10, 0x20, 0x30] (power_on 0x30)
       = map_option Inr (sendByte_each atmega [0x10, 0x20, 0x30] (power_on 0x30))
   \<and> (\<exists>m'. sendByte_each atmega [0x10, 0x20, 0x30] (power_on 0x30) = Some m'
         \<and> writes_of (trace m') = [(TWDR, 0x10), (TWCR, 0x84), (TWDR, 0x20), (TWCR, 0x84),
                                     (TWDR, 0x30), (TWCR, 0x84)]
         \<and> length (checks_of (trace m')) = 3)"
proof -
  have len: "length [0x10, 0x20, 0x30 :: cint] < 2 ^ 15" by simp
  have run: "map_option (map_sum id trace) (i2cSendData atmega 3 [0x10, 0x20, 0x30] (power_on 0x30)) =
       Some (Inr
         [Write TWDR 0x10, Write TWCR 0x84, Read TWCR 4, Read TWCR 4, Read TWCR 0x84,
          Read TWSR 0x30, Check 0x28 False,
          Write TWDR 0x20, Write TWCR 0x84, Read TWCR 4, Read TWCR 4, Read TWCR 0x84,
          Read TWSR 0x30, Check 0x28 False,
          Write TWDR 0x30, Write TWCR 0x84, Read TWCR 4, Read TWCR 4, Read TWCR 0x84,
          Read TWSR 0x30, Check 0x28 False])"
    by (simp add: i2cSendData_def i2cSendByte_def sim_run word_sless_alt)
  note t = i2cSendData_is_sequential_sendByte [of "[0x10, 0x20, 0x30]" atmega "power_on 0x30"]
  from t len have "i2cSendData atmega (of_nat (length [0x10, 0x20, 0x30 :: cint])) [0x10, 0x20, 0x30] (power_on 0x30)
       = map_option Inr (sendByte_each atmega (map ucast [0x10, 0x20, 0x30 :: cint]) (power_on 0x30))"
    by blast
  then have eq: "i2cSendData atmega 3 [0x10, 0x20, 0x30] (power_on 0x30)
       = map_option Inr (sendByte_each atmega [0x10, 0x20, 0x30] (power_on 0x30))"
    by simp
  from run eq obtain M where M: "sendByte_each atmega [0x10, 0x20, 0x30] (power_on 0x30) = Some M"
    by (cases "sendByte_each atmega [0x10, 0x20, 0x30] (power_on 0x30)") auto
  from t [of "[0x10, 0x20, 0x30]" M] M
  have "writes_of (trace M) = writes_of (trace (power_on 0x30))
          @ concat (map (\<lambda>b. [(TWDR, b), (TWCR, 0x84)]) [0x10, 0x20, 0x30])
        \<and> length (checks_of (trace M)) = length (checks_of (trace (power_on 0x30)))
          + length [0x10, 0x20, 0x30 :: byte]"
    by blast
  then have "writes_of (trace M) = [(TWDR, 0x10), (TWCR, 0x84), (TWDR, 0x20), (TWCR, 0x84),
                                     (TWDR, 0x30), (TWCR, 0x84)]
         \<and> length (checks_of (trace M)) = 3"
    by (simp add: power_on_def)
  with len run eq M show ?thesis by blast
qed

section \<open>The clock configuration after \<open>i2cInit\<close>\<close>

lemma keeps_refl: "keeps_clock p clk m m"
  by (simp add: keeps_clock_def)

lemma keeps_trans:
  "keeps_clock p clk m m1 \<Longrightarrow> keeps_clock p clk m1 m2 \<Longrightarrow> keeps_clock p clk m m2"
  by (simp add: keeps_clock_def)

lemma keeps_write_TWCR: "keeps_clock p clk m (write_reg p TWCR v m)"
  by (simp add: keeps_clock_def clock_writes_def write_reg_def writes_of_append clock_stable_def)

lemma keeps_write_TWDR: "keeps_clock p clk m (write_reg p TWDR v m)"
  by (simp add: keeps_clock_def clock_writes_def write_reg_def writes_of_append clock_stable_def)

lemma keeps_read: "keeps_clock p clk m (snd (read_reg p r m))"
  by (simp add: keeps_clock_def clock_writes_def read_reg_def writes_of_append clock_stable_def)

lemma keeps_polls: "keeps_clock p clk m (polls p n m)"
proof (induction n arbitrary: m)
  case 0
  show ?case by (simp add: keeps_refl)
next
  case (Suc n)
  have "keeps_clock p clk m (snd (read_reg p TWCR m))" by (rule keeps_read)
  moreover have "keeps_clock p clk (snd (read_reg p TWCR m)) (polls p n (snd (read_reg p TWCR m)))"
    by (rule Suc.IH)
  ultimately show ?case by (simp add: keeps_trans)
qed

lemma keeps_check: "keeps_clock p clk m (snd (i2cCheckStatus p c m))"
  by (simp add: keeps_clock_def clock_writes_def trace_check writes_of_append hw_check
      clock_stable_def)

lemma keeps_await: "i2cAwaitCompletion p m = Some m' \<Longrightarrow> keeps_clock p clk m m'"
  using await_Some [of p m m'] keeps_polls [of p clk m] by blast

lemma keeps_phase:
  assumes "(case i2cAwaitCompletion p m1 of None \<Rightarrow> None
            | Some m2 \<Rightarrow> Some (snd (i2cCheckStatus p c m2))) = Some m'"
  shows "keeps_clock p clk m1 m'"
proof -
  from phase_Some [OF assms] obtain n where
    "m' = snd (i2cCheckStatus p c (polls p (Suc n) m1))" by blast
  then show ?thesis
    using keeps_trans [OF keeps_polls keeps_check] by blast
qed

lemma keeps_start: "i2cStart p m = Some m' \<Longrightarrow> keeps_clock p clk m m'"
  unfolding i2cStart_def by (rule keeps_trans [OF keeps_write_TWCR keeps_phase])

lemma keeps_byte: "i2cSendByte p b m = Some m' \<Longrightarrow> keeps_clock p clk m m'"
  unfolding i2cSendByte_def
  by (rule keeps_trans [OF keeps_write_TWDR keeps_trans [OF keeps_write_TWCR keeps_phase]])

lemma keeps_address: "i2cSendAddress p a rw m = Some m' \<Longrightarrow> keeps_clock p clk m m'"
  unfolding i2cSendAddress_eq
  by (rule keeps_trans [OF keeps_write_TWDR keeps_trans [OF keeps_write_TWCR keeps_phase]])

lemma keeps_loop:
  "i2cSendData_loop p argc i va m = Some (Inr m') \<Longrightarrow> keeps_clock p clk m m'"
proof (induction va arbitrary: i m)
  case Nil
  then show ?case by (simp add: keeps_refl split: if_splits)
next
  case (Cons a va)
  show ?case
  proof (cases "i <s argc")
    case False
    with Cons.prems show ?thesis by (simp add: keeps_refl)
  next
    case True
    with Cons.prems obtain m1 where m1: "i2cSendByte p (ucast a) m = Some m1"
      and rest: "i2cSendData_loop p argc (i + 1) va m1 = Some (Inr m')"
      by (auto split: option.splits)
    from keeps_byte [OF m1] Cons.IH [OF rest] show ?thesis by (rule keeps_trans)
  qed
qed

lemma keeps_data: "i2cSendData p argc va m = Some (Inr m') \<Longrightarrow> keeps_clock p clk m m'"
  unfolding i2cSendData_def by (rule keeps_loop)

lemma keeps_stop: "keeps_clock p clk m (i2cStop p m)"
  unfolding i2cStop_def by (rule keeps_write_TWCR)

lemma keeps_bus_op: "bus_op p m m' \<Longrightarrow> keeps_clock p clk m m'"
  by (induction rule: bus_op.induct)
    (simp_all add: keeps_start keeps_address keeps_byte keeps_data keeps_await keeps_stop)

lemma keeps_bus_ops: "rtranclp (bus_op p) m m' \<Longrightarrow> keeps_clock p clk m m'"
  by (induction rule: rtranclp_induct) (auto intro: keeps_refl keeps_trans keeps_bus_op)

text \<open>
  C9. Every operation other than \<open>i2cInit\<close> (\<open>i2cStart\<close>, \<open>i2cSendAddress\<close>,
  \<open>i2cSendByte\<close>, \<open>i2cSendData\<close>, \<open>i2cAwaitCompletion\<close>, \<open>i2cCheckStatus\<close>,
  \<open>i2cStop\<close>), and every sequence of them, makes no store to the divisor register or to
  the status register; on a device whose clock configuration changes only by such
  stores, the configuration after the operation is the one before it.
\<close>

theorem clock_configuration_kept_after_init:
  "(i2cStart p m = Some m' \<longrightarrow> keeps_clock p clk m m')
   \<and> (i2cSendAddress p address rw m = Some m' \<longrightarrow> keeps_clock p clk m m')
   \<and> (i2cSendByte p byte m = Some m' \<longrightarrow> keeps_clock p clk m m')
   \<and> (i2cSendData p argc va m = Some (Inr m') \<longrightarrow> keeps_clock p clk m m')
   \<and> (i2cAwaitCompletion p m = Some m' \<longrightarrow> keeps_clock p clk m m')
   \<and> keeps_clock p clk m (snd (i2cCheckStatus p c m))
   \<and> keeps_clock p clk m (i2cStop p m)
   \<and> (rtranclp (bus_op p) m m' \<longrightarrow> keeps_clock p clk m m')"
  using keeps_start [of p m m' clk] keeps_address [of p address rw m m' clk]
    keeps_byte [of p byte m m' clk] keeps_data [of p argc va m m' clk]
    keeps_await [of p m m' clk] keeps_check [of p clk m c] keeps_stop [of p clk m]
    keeps_bus_ops [of p m m' clk]
  by blast

lemma atmega_clock_stable: "clock_stable atmega sim_clock"
  unfolding clock_stable_def
proof (intro conjI allI)
  fix r h
  show "sim_clock (snd (dev_read atmega r h)) = sim_clock h"
    by (cases r) (simp_all add: atmega_def sim_read_def sim_clock_def)
next
  fix v h
  show "sim_clock (dev_write atmega TWCR v h) = sim_clock h"
    by (simp add: atmega_def sim_write_def sim_clock_def)
next
  fix v h
  show "sim_clock (dev_write atmega TWDR v h) = sim_clock h"
    by (simp add: atmega_def sim_write_def sim_clock_def)
qed

theorem clock_configuration_kept_after_init_witness:
  "clock_stable atmega sim_clock
   \<and> sim_clock (hw (i2cInit atmega (power_on 0x28))) = (3, 0)
   \<and> clock_writes (trace (i2cInit atmega (power_on 0x28))) = [(TWSR, 0), (TWBR, 3)]
   \<and> (\<exists>m1 m2 m3.
         i2cStart atmega (i2cInit atmega (power_on 0x28)) = Some m1
         \<and> i2cSendAddress atmega 0x50 1 m1 = Some m2
         \<and> i2cSendByte atmega 0x41 m2 = Some m3
         \<and> sim_clock (hw (i2cStop atmega m3)) = (3, 0)
         \<and> clock_writes (trace (i2cStop atmega m3)) = [(TWSR, 0), (TWBR, 3)])"
proof -
  let ?m0 = "i2cInit atmega (power_on 0x28)"
  have br: "bit_rate 16000000 F_SCL = 3" by (simp add: bit_rate_def F_SCL_def)
  have c0: "sim_clock (hw ?m0) = (3, 0)"
    by (simp add: i2cInit_def write_reg_def atmega_def power_on_def sim_write_def sim_clock_def br)
  have w0: "clock_writes (trace ?m0) = [(TWSR, 0), (TWBR, 3)]"
    by (simp add: clock_writes_def trace_i2cInit power_on_def atmega_def br)
  obtain m1 where m1: "i2cStart atmega ?m0 = Some m1"
    by (simp add: i2cStart_def i2cInit_def sim_run)
  have "\<exists>m2. i2cSendAddress atmega 0x50 1 m1 = Some m2"
    using m1 by (auto simp add: i2cStart_def i2cSendAddress_def i2cInit_def sim_run)
  then obtain m2 where m2: "i2cSendAddress atmega 0x50 1 m1 = Some m2" by blast
  have "\<exists>m3. i2cSendByte atmega 0x41 m2 = Some m3"
    using m1 m2 by (auto simp add: i2cStart_def i2cSendAddress_def i2cSendByte_def i2cInit_def sim_run)
  then obtain m3 where m3: "i2cSendByte atmega 0x41 m2 = Some m3" by blast
  note t = clock_configuration_kept_after_init [where p = atmega and clk = sim_clock]
  from t [of ?m0 m1] m1 have k1: "keeps_clock atmega sim_clock ?m0 m1" by blast
  from t [of m1 m2 "0x50" 1] m2 have k2: "keeps_clock atmega sim_clock m1 m2" by blast
  from t [of m2 m3 _ _ "0x41"] m3 have k3: "keeps_clock atmega sim_clock m2 m3" by blast
  from t [of m3] have k4: "keeps_clock atmega sim_clock m3 (i2cStop atmega m3)" by blast
  from k1 k2 k3 k4 atmega_clock_stable c0 w0
  have "sim_clock (hw (i2cStop atmega m3)) = (3, 0)
      \<and> clock_writes (trace (i2cStop atmega m3)) = [(TWSR, 0), (TWBR, 3)]"
    by (simp add: keeps_clock_def)
  with atmega_clock_stable c0 w0 m1 m2 m3 show ?thesis by blast
qed

section \<open>The status expected after the address\<close>















lemma sc_last_check:
  assumes "status_checked p (es @ [Check c ok])"
  shows "\<exists>es' v. es = es' @ [Read TWSR v] \<and> ok = (uint (v AND 0xF8) = char_value p c)"
  using assms
proof (cases rule: status_checked.cases)
  case (sc_check es0 v c0)
  then have "es @ [Check c ok] = (es0 @ [Read TWSR v]) @ [Check c0 (uint (v AND 0xF8) = char_value p c0)]"
    by simp
  then have "es = es0 @ [Read TWSR v]" and "c = c0" and "ok = (uint (v AND 0xF8) = char_value p c0)"
    by (simp_all only: append1_eq_conv event.inject)
  then show ?thesis by blast
qed simp_all

lemma sc_append:
  "status_checked p fs \<Longrightarrow> status_checked p es \<Longrightarrow> status_checked p (es @ fs)"
proof (induction rule: status_checked.induct)
  case sc_empty
  then show ?case by simp
next
  case (sc_write fs r v)
  then have "status_checked p ((es @ fs) @ [Write r v])" by (intro status_checked.sc_write) simp
  then show ?case by simp
next
  case (sc_read fs r v)
  then have "status_checked p ((es @ fs) @ [Read r v])" by (intro status_checked.sc_read) simp
  then show ?case by simp
next
  case (sc_check fs v c)
  then have "status_checked p ((es @ fs) @ [Read TWSR v, Check c (uint (v AND 0xF8) = char_value p c)])"
    by (intro status_checked.sc_check) simp
  then show ?case by simp
qed

















end
